theory Spec2Isabelle
  imports Main
begin

section \<open>The booking simulation of \<^verbatim>\<open>movie_ticket_booking_complete.c\<close>\<close>

text \<open>
  The program starts one POSIX thread per user. Every thread runs \<^verbatim>\<open>book_ticket\<close>: it picks a
  show with \<^verbatim>\<open>rand() % num_shows\<close>, waits on the global counting semaphore (initial value 3),
  locks the mutex of the selected show, tests \<^verbatim>\<open>available_tickets > 0\<close>, sleeps and decrements
  the counter if the test succeeded, unlocks the mutex and posts the semaphore.

  The threads are modelled as an interleaving of atomic steps. A step is one synchronisation
  call or one access to the shared counter of \<^verbatim>\<open>book_ticket\<close>; the test and the decrement of
  \<^verbatim>\<open>available_tickets\<close> are two separate steps, as they are two separate memory accesses with
  a \<^verbatim>\<open>usleep\<close> in between. A schedule lists which thread moves next and which value
  \<^verbatim>\<open>rand()\<close> returns to it; nothing is assumed about these values. The calls
  \<^verbatim>\<open>sem_wait\<close>, \<^verbatim>\<open>sem_post\<close>, \<^verbatim>\<open>pthread_mutex_lock\<close> and \<^verbatim>\<open>pthread_mutex_unlock\<close>, whose
  return values the program ignores, are taken to succeed on the initialised semaphore and
  mutexes. Console output, the delays and \<^verbatim>\<open>free(user_data)\<close> are not modelled.
\<close>

subsection \<open>Data structures\<close>

text \<open>
  \<^verbatim>\<open>Show\<close> (lines 45-52). The C \<^verbatim>\<open>int\<close> fields are modelled as unbounded integers; the
  theorems below show that \<^verbatim>\<open>available_tickets\<close> stays between 0 and the initial count, so
  no arithmetic of the booking protocol leaves the range of \<^verbatim>\<open>int\<close>. The mutex is modelled by
  its state: \<open>None\<close> when unlocked, \<open>Some i\<close> when locked by thread \<open>i\<close>.
\<close>

record Show =
  show_id :: int
  available_tickets :: int
  initial_tickets :: int
  mutex :: "nat option"

text \<open>The two branches of the test in lines 238-263.\<close>

datatype outcome = Booked | Sold_out

text \<open>
  The control points of \<^verbatim>\<open>book_ticket\<close> (lines 193-298): before the random selection
  (line 202), before \<^verbatim>\<open>sem_wait\<close> (217), before \<^verbatim>\<open>pthread_mutex_lock\<close> (224), before the
  test (238), before the decrement (251), before \<^verbatim>\<open>pthread_mutex_unlock\<close> (274), before
  \<^verbatim>\<open>sem_post\<close> (280), and after \<^verbatim>\<open>pthread_exit\<close> (297). From the test on, the control point
  records the branch that was taken.
\<close>

datatype pc =
    At_select
  | At_sem_wait
  | At_mutex_lock
  | At_check
  | At_decrement
  | At_mutex_unlock outcome
  | At_sem_post outcome
  | At_exit outcome

text \<open>
  A running thread: the fields of its \<^verbatim>\<open>UserData\<close> (lines 59-64; the two pointers refer to
  the global show array and the global semaphore of the system state below), its local variable
  \<^verbatim>\<open>selected_show_index\<close> and its control point. \<^verbatim>\<open>num_shows\<close> is a positive \<^verbatim>\<open>int\<close> in
  every run (line 427) and is modelled as a natural number.
\<close>

record user_thread =
  user_id :: int
  num_shows :: nat
  selected_show_index :: nat
  pc :: pc

text \<open>
  The shared state: the global array \<^verbatim>\<open>shows\<close> (line 72), the value of
  \<^verbatim>\<open>global_semaphore\<close> (line 76) and the threads that were created.
\<close>

record system =
  shows_arr :: "Show list"
  global_semaphore :: nat
  threads :: "user_thread list"

subsection \<open>One step of \<^verbatim>\<open>book_ticket\<close>\<close>

text \<open>
  \<open>book_ticket_step i r s\<close> is the next step of thread \<open>i\<close> in state \<open>s\<close>, where \<open>r\<close> is the
  value \<^verbatim>\<open>rand()\<close> returns if the step is the selection. The result is \<open>None\<close> when the
  thread cannot move: there is no thread \<open>i\<close>, the thread has exited, \<^verbatim>\<open>sem_wait\<close> blocks
  because the semaphore is 0, or \<^verbatim>\<open>pthread_mutex_lock\<close> blocks because the mutex is locked.
\<close>

definition book_ticket_step :: "nat \<Rightarrow> nat \<Rightarrow> system \<Rightarrow> system option" where
  "book_ticket_step i r s =
    (if length (threads s) \<le> i then None
     else
       let t = threads s ! i;
           k = selected_show_index t;
           sh = shows_arr s ! k
       in case pc t of
         At_select \<Rightarrow>
           Some (s\<lparr>threads := (threads s)
                  [i := t\<lparr>selected_show_index := r mod num_shows t, pc := At_sem_wait\<rparr>]\<rparr>)
       | At_sem_wait \<Rightarrow>
           if global_semaphore s = 0 then None
           else Some (s\<lparr>global_semaphore := global_semaphore s - 1,
                        threads := (threads s)[i := t\<lparr>pc := At_mutex_lock\<rparr>]\<rparr>)
       | At_mutex_lock \<Rightarrow>
           (case mutex sh of
              Some owner \<Rightarrow> None
            | None \<Rightarrow>
                Some (s\<lparr>shows_arr := (shows_arr s)[k := sh\<lparr>mutex := Some i\<rparr>],
                        threads := (threads s)[i := t\<lparr>pc := At_check\<rparr>]\<rparr>))
       | At_check \<Rightarrow>
           Some (s\<lparr>threads := (threads s)
                  [i := t\<lparr>pc := (if 0 < available_tickets sh then At_decrement
                                 else At_mutex_unlock Sold_out)\<rparr>]\<rparr>)
       | At_decrement \<Rightarrow>
           Some (s\<lparr>shows_arr := (shows_arr s)
                    [k := sh\<lparr>available_tickets := available_tickets sh - 1\<rparr>],
                   threads := (threads s)[i := t\<lparr>pc := At_mutex_unlock Booked\<rparr>]\<rparr>)
       | At_mutex_unlock oc \<Rightarrow>
           Some (s\<lparr>shows_arr := (shows_arr s)[k := sh\<lparr>mutex := None\<rparr>],
                   threads := (threads s)[i := t\<lparr>pc := At_sem_post oc\<rparr>]\<rparr>)
       | At_sem_post oc \<Rightarrow>
           Some (s\<lparr>global_semaphore := global_semaphore s + 1,
                   threads := (threads s)[i := t\<lparr>pc := At_exit oc\<rparr>]\<rparr>)
       | At_exit oc \<Rightarrow> None)"

text \<open>
  A schedule is a list of pairs (thread, value of \<^verbatim>\<open>rand()\<close>). \<open>run\<close> executes it step by
  step; the result is \<open>None\<close> if some scheduled thread cannot move at its turn.
\<close>

fun run :: "(nat \<times> nat) list \<Rightarrow> system \<Rightarrow> system option" where
  "run [] s = Some s"
| "run ((i, r) # sched) s =
     (case book_ticket_step i r s of None \<Rightarrow> None | Some s' \<Rightarrow> run sched s')"

subsection \<open>The state in which the simulation starts\<close>

text \<open>Element \<open>i\<close> of the show array as lines 132-134 and 138 initialise it.\<close>

definition new_show :: "int \<Rightarrow> nat \<Rightarrow> Show" where
  "new_show tickets_per_show i =
     \<lparr>show_id = int i + 1, available_tickets = tickets_per_show,
      initial_tickets = tickets_per_show, mutex = None\<rparr>"

text \<open>
  The thread of loop index \<open>i\<close> as lines 496-502 start it. \<^verbatim>\<open>selected_show_index\<close> has no
  value before line 202 assigns it; the model holds 0 there and never reads it before.
\<close>

definition new_thread :: "nat \<Rightarrow> nat \<Rightarrow> user_thread" where
  "new_thread total_shows i =
     \<lparr>user_id = int i + 1, num_shows = total_shows, selected_show_index = 0, pc = At_select\<rparr>"

text \<open>Line 455.\<close>

definition concurrent_limit :: nat where
  "concurrent_limit = 3"

text \<open>
  The state after a successful set-up, where \<open>created\<close> lists the loop indices whose thread
  was created. A thread that line 502 has not created yet behaves like a created thread that
  has not taken its first step, so all threads are present from the start.
\<close>

definition simulation_start :: "nat list \<Rightarrow> int \<Rightarrow> nat \<Rightarrow> system" where
  "simulation_start created tickets_per_show total_shows =
     \<lparr>shows_arr = map (new_show tickets_per_show) [0..<total_shows],
      global_semaphore = concurrent_limit,
      threads = map (new_thread total_shows) created\<rparr>"

subsection \<open>Observations on control points and states\<close>

text \<open>Between \<^verbatim>\<open>pthread_mutex_lock\<close> and \<^verbatim>\<open>pthread_mutex_unlock\<close>.\<close>

fun in_critical_section :: "pc \<Rightarrow> bool" where
  "in_critical_section At_check = True"
| "in_critical_section At_decrement = True"
| "in_critical_section (At_mutex_unlock oc) = True"
| "in_critical_section p = False"

text \<open>Past \<^verbatim>\<open>sem_wait\<close> and before the return of \<^verbatim>\<open>sem_post\<close>.\<close>

fun holds_permit :: "pc \<Rightarrow> bool" where
  "holds_permit At_select = False"
| "holds_permit At_sem_wait = False"
| "holds_permit (At_exit oc) = False"
| "holds_permit p = True"

text \<open>
  The outcome of the attempt, once it is decided: \<open>Booked\<close> after the decrement of line 251,
  \<open>Sold_out\<close> after the test of line 238 failed.
\<close>

fun outcome_of :: "pc \<Rightarrow> outcome option" where
  "outcome_of (At_mutex_unlock oc) = Some oc"
| "outcome_of (At_sem_post oc) = Some oc"
| "outcome_of (At_exit oc) = Some oc"
| "outcome_of p = None"

fun terminated :: "pc \<Rightarrow> bool" where
  "terminated (At_exit oc) = True"
| "terminated p = False"

text \<open>The number of steps a thread at a control point can still take, at most.\<close>

fun steps_left :: "pc \<Rightarrow> nat" where
  "steps_left At_select = 7"
| "steps_left At_sem_wait = 6"
| "steps_left At_mutex_lock = 5"
| "steps_left At_check = 4"
| "steps_left At_decrement = 3"
| "steps_left (At_mutex_unlock oc) = 2"
| "steps_left (At_sem_post oc) = 1"
| "steps_left (At_exit oc) = 0"

definition work_left :: "system \<Rightarrow> nat" where
  "work_left s = sum_list (map (\<lambda>t. steps_left (pc t)) (threads s))"

definition all_terminated :: "system \<Rightarrow> bool" where
  "all_terminated s \<longleftrightarrow> list_all (\<lambda>t. terminated (pc t)) (threads s)"

definition permits_held :: "user_thread list \<Rightarrow> nat" where
  "permits_held ts = length (filter (\<lambda>t. holds_permit (pc t)) ts)"

definition booked_for :: "nat \<Rightarrow> user_thread list \<Rightarrow> nat" where
  "booked_for k ts =
     length (filter (\<lambda>t. outcome_of (pc t) = Some Booked \<and> selected_show_index t = k) ts)"

definition sold_out_for :: "nat \<Rightarrow> user_thread list \<Rightarrow> nat" where
  "sold_out_for k ts =
     length (filter (\<lambda>t. outcome_of (pc t) = Some Sold_out \<and> selected_show_index t = k) ts)"

definition selected_for :: "nat \<Rightarrow> user_thread list \<Rightarrow> nat" where
  "selected_for k ts = length (filter (\<lambda>t. selected_show_index t = k) ts)"

definition booked_outcomes :: "user_thread list \<Rightarrow> nat" where
  "booked_outcomes ts = length (filter (\<lambda>t. outcome_of (pc t) = Some Booked) ts)"

definition sold_out_outcomes :: "user_thread list \<Rightarrow> nat" where
  "sold_out_outcomes ts = length (filter (\<lambda>t. outcome_of (pc t) = Some Sold_out) ts)"

subsection \<open>Invariants of the protocol\<close>

text \<open>Every thread knows the length of the show array and, once it has selected, its index is in range.\<close>

definition well_formed :: "system \<Rightarrow> bool" where
  "well_formed s \<longleftrightarrow>
     0 < length (shows_arr s) \<and>
     (\<forall>i < length (threads s).
        num_shows (threads s ! i) = length (shows_arr s) \<and>
        (pc (threads s ! i) \<noteq> At_select \<longrightarrow>
           selected_show_index (threads s ! i) < length (shows_arr s)))"

text \<open>A thread is in the critical section of a show exactly when it owns the mutex of that show.\<close>

definition mutex_owned :: "system \<Rightarrow> bool" where
  "mutex_owned s \<longleftrightarrow>
     (\<forall>i < length (threads s).
        in_critical_section (pc (threads s ! i)) \<longrightarrow>
          mutex (shows_arr s ! selected_show_index (threads s ! i)) = Some i) \<and>
     (\<forall>k < length (shows_arr s). \<forall>i.
        mutex (shows_arr s ! k) = Some i \<longrightarrow>
          i < length (threads s) \<and> in_critical_section (pc (threads s ! i)) \<and>
          selected_show_index (threads s ! i) = k)"

definition tickets_bounded :: "system \<Rightarrow> bool" where
  "tickets_bounded s \<longleftrightarrow>
     (\<forall>k < length (shows_arr s).
        0 \<le> available_tickets (shows_arr s ! k) \<and>
        available_tickets (shows_arr s ! k) \<le> initial_tickets (shows_arr s ! k))"

text \<open>
  What a thread found at the test still holds: a ticket is left while it is about to decrement,
  and none is left once it has taken the sold-out branch.
\<close>

definition checked_ok :: "system \<Rightarrow> bool" where
  "checked_ok s \<longleftrightarrow>
     (\<forall>i < length (threads s).
        (pc (threads s ! i) = At_decrement \<longrightarrow>
           0 < available_tickets (shows_arr s ! selected_show_index (threads s ! i))) \<and>
        (outcome_of (pc (threads s ! i)) = Some Sold_out \<longrightarrow>
           available_tickets (shows_arr s ! selected_show_index (threads s ! i)) = 0))"

definition permits_conserved :: "system \<Rightarrow> bool" where
  "permits_conserved s \<longleftrightarrow> global_semaphore s + permits_held (threads s) = concurrent_limit"

definition bookings_accounted :: "system \<Rightarrow> bool" where
  "bookings_accounted s \<longleftrightarrow>
     (\<forall>k < length (shows_arr s).
        initial_tickets (shows_arr s ! k) - available_tickets (shows_arr s ! k) =
          int (booked_for k (threads s)))"

definition invariant :: "system \<Rightarrow> bool" where
  "invariant s \<longleftrightarrow>
     well_formed s \<and> mutex_owned s \<and> tickets_bounded s \<and> checked_ok s \<and>
     permits_conserved s \<and> bookings_accounted s"

subsection \<open>The critical section read sequentially\<close>

text \<open>
  Lines 238-263 as one function on the selected show: the show afterwards and the branch taken.
\<close>

definition critical_section :: "Show \<Rightarrow> Show \<times> outcome" where
  "critical_section sh =
     (if 0 < available_tickets sh
      then (sh\<lparr>available_tickets := available_tickets sh - 1\<rparr>, Booked)
      else (sh, Sold_out))"

text \<open>
  The relation between the selected show of thread \<open>i\<close> and its value \<open>sh0\<close> at the moment
  the thread reached the test, for as long as the thread is in its critical section.
\<close>

definition critical_section_progress :: "Show \<Rightarrow> nat \<Rightarrow> system \<Rightarrow> bool" where
  "critical_section_progress sh0 i s =
     (let t = threads s ! i; sh = shows_arr s ! selected_show_index t
      in case pc t of
           At_check \<Rightarrow> sh = sh0
         | At_decrement \<Rightarrow> sh = sh0 \<and> 0 < available_tickets sh0
         | At_mutex_unlock oc \<Rightarrow> (sh, oc) = critical_section sh0
         | _ \<Rightarrow> True)"

subsection \<open>Command line\<close>

definition INT_MAX :: int where
  "INT_MAX = 2147483647"

definition INT_MIN :: int where
  "INT_MIN = - 2147483648"

definition EXIT_FAILURE :: int where
  "EXIT_FAILURE = 1"

definition isspace :: "char \<Rightarrow> bool" where
  "isspace c \<longleftrightarrow>
     c = CHR '' '' \<or> c = CHR 0x09 \<or> c = CHR 0x0A \<or> c = CHR 0x0B \<or> c = CHR 0x0C \<or>
     c = CHR 0x0D"

definition isdigit :: "char \<Rightarrow> bool" where
  "isdigit c \<longleftrightarrow> c \<in> set ''0123456789''"

definition digit_value :: "char \<Rightarrow> int" where
  "digit_value c = int (of_char c) - 48"

fun atoi_digits :: "int \<Rightarrow> string \<Rightarrow> int" where
  "atoi_digits acc [] = acc"
| "atoi_digits acc (c # cs) =
     (if isdigit c then atoi_digits (10 * acc + digit_value c) cs else acc)"

text \<open>What \<^verbatim>\<open>atoi\<close> skips before the digits: white space, then one optional sign.\<close>

definition skip_sign :: "string \<Rightarrow> string" where
  "skip_sign s =
     (case s of [] \<Rightarrow> [] | c # cs \<Rightarrow> if c = CHR ''-'' \<or> c = CHR ''+'' then cs else s)"

text \<open>
  Modelled from the spec: \<^verbatim>\<open>atoi\<close> is a function of the C library, called in lines 421-423
  and not defined in the repository. The model is the conversion the claim on argument
  validation describes (the value of the leading decimal digits, 0 when there are none, the rest
  of the string ignored), with the details the C standard fixes for \<^verbatim>\<open>atoi\<close>: leading white
  space is skipped and one sign is accepted. The standard leaves the result undefined when the
  value is outside the range of \<^verbatim>\<open>int\<close>; the model returns \<open>None\<close> there.
\<close>

definition atoi :: "string \<Rightarrow> int option" where
  "atoi nptr =
     (let s = dropWhile isspace nptr;
          magnitude = atoi_digits 0 (skip_sign s);
          v = (if s \<noteq> [] \<and> hd s = CHR ''-'' then - magnitude else magnitude)
      in if INT_MIN \<le> v \<and> v \<le> INT_MAX then Some v else None)"

text \<open>The number a string of decimal digits denotes.\<close>

definition decimal_value :: "string \<Rightarrow> int" where
  "decimal_value ds = foldl (\<lambda>acc c. 10 * acc + digit_value c) 0 ds"

text \<open>
  How the process ends: \<^verbatim>\<open>exit\<close> or \<^verbatim>\<open>return\<close> from \<^verbatim>\<open>main\<close> with a code, or a call whose
  behaviour C and POSIX leave undefined.
\<close>

datatype result = Exit int | Undefined

text \<open>
  Lines 409-433: the count of arguments, the three conversions and the validation. \<open>argv\<close>
  includes the program name, so \<^verbatim>\<open>argc\<close> is its length.
\<close>

definition parse_arguments :: "string list \<Rightarrow> result + int \<times> int \<times> int" where
  "parse_arguments argv =
     (if length argv \<noteq> 4 then Inl (Exit EXIT_FAILURE)
      else case (atoi (argv ! 1), atoi (argv ! 2), atoi (argv ! 3)) of
             (Some total_users, Some total_tickets_per_show, Some total_shows) \<Rightarrow>
               if total_users \<le> 0 \<or> total_tickets_per_show \<le> 0 \<or> total_shows \<le> 0
               then Inl (Exit EXIT_FAILURE)
               else Inr (total_users, total_tickets_per_show, total_shows)
           | _ \<Rightarrow> Inl Undefined)"

subsection \<open>Resources\<close>

text \<open>
  The calls of the main thread that acquire or release a resource, in the order in which they
  happen. The argument of the mutex and thread events is the array index.
\<close>

datatype event =
    Sem_init nat
  | Sem_init_failed
  | Shows_malloc nat
  | Shows_malloc_failed
  | Mutex_init nat
  | Mutex_init_failed nat
  | Mutex_destroy nat
  | Shows_free
  | Threads_malloc nat
  | Threads_malloc_failed
  | User_data_malloc_failed nat
  | Thread_create nat
  | Thread_create_failed nat
  | Thread_join nat
  | Final_report int int int
  | Threads_free
  | Sem_destroy

text \<open>
  Which library calls succeed is decided outside the program: \<^verbatim>\<open>sem_init\<close> (line 458),
  \<^verbatim>\<open>malloc\<close> of the show array (120), \<^verbatim>\<open>pthread_mutex_init\<close> for show \<open>i\<close> (138),
  \<^verbatim>\<open>malloc\<close> of the thread ids (477), \<^verbatim>\<open>malloc\<close> of the \<^verbatim>\<open>UserData\<close> of loop index \<open>i\<close> (488)
  and \<^verbatim>\<open>pthread_create\<close> for loop index \<open>i\<close> (502).
\<close>

record env =
  sem_init_ok :: bool
  shows_malloc_ok :: bool
  mutex_init_ok :: "nat \<Rightarrow> bool"
  threads_malloc_ok :: bool
  user_data_malloc_ok :: "nat \<Rightarrow> bool"
  pthread_create_ok :: "nat \<Rightarrow> bool"

text \<open>
  The loop of lines 131-150 over the remaining indices; \<open>built\<close> holds the shows initialised so
  far. The result \<open>None\<close> is \<^verbatim>\<open>exit(EXIT_FAILURE)\<close> in line 146.
\<close>

fun initialize_shows_loop ::
  "(nat \<Rightarrow> bool) \<Rightarrow> int \<Rightarrow> nat list \<Rightarrow> Show list \<Rightarrow> event list \<times> Show list option" where
  "initialize_shows_loop init_ok tickets_per_show [] built = ([], Some built)"
| "initialize_shows_loop init_ok tickets_per_show (i # rest) built =
     (if init_ok i then
        (case initialize_shows_loop init_ok tickets_per_show rest
                (built @ [new_show tickets_per_show i]) of
           (ev, res) \<Rightarrow> (Mutex_init i # ev, res))
      else (Mutex_init_failed i # map Mutex_destroy [0..<i] @ [Shows_free], None))"

text \<open>\<^verbatim>\<open>initialize_shows\<close> (lines 115-153); \<open>None\<close> is \<^verbatim>\<open>exit(EXIT_FAILURE)\<close>.\<close>

definition initialize_shows :: "env \<Rightarrow> nat \<Rightarrow> int \<Rightarrow> event list \<times> Show list option" where
  "initialize_shows e nshows tickets_per_show =
     (if \<not> shows_malloc_ok e then ([Shows_malloc_failed], None)
      else case initialize_shows_loop (mutex_init_ok e) tickets_per_show [0..<nshows] [] of
             (ev, res) \<Rightarrow> (Shows_malloc nshows # ev, res))"

text \<open>\<^verbatim>\<open>cleanup_resources\<close> (lines 314-336), called when the show array is allocated.\<close>

definition cleanup_resources :: "nat \<Rightarrow> event list" where
  "cleanup_resources total_shows =
     map Mutex_destroy [0..<total_shows] @ [Shows_free, Sem_destroy]"

text \<open>
  The three totals of \<^verbatim>\<open>display_final_status\<close> (lines 350-370). The accumulators are C
  \<^verbatim>\<open>int\<close>s and are modelled unbounded: the first two leave the range of \<^verbatim>\<open>int\<close> when the
  number of shows times the tickets per show does; the third is bounded by the number of threads.
\<close>

definition display_final_status :: "system \<Rightarrow> int \<times> int \<times> int" where
  "display_final_status s =
     fold (\<lambda>sh (total_initial_tickets, total_remaining_tickets, total_booked_tickets).
             (total_initial_tickets + initial_tickets sh,
              total_remaining_tickets + available_tickets sh,
              total_booked_tickets + (initial_tickets sh - available_tickets sh)))
       (shows_arr s) (0, 0, 0)"

definition total_booked_tickets :: "system \<Rightarrow> int" where
  "total_booked_tickets s = snd (snd (display_final_status s))"

text \<open>
  The loop of lines 485-515 over the remaining loop indices. \<open>slots\<close> is the array
  \<^verbatim>\<open>threads\<close>: \<open>Some w\<close> where \<^verbatim>\<open>pthread_create\<close> stored the id of the thread at position
  \<open>w\<close> of the system state, \<open>None\<close> where nothing was stored (the memory comes from
  \<^verbatim>\<open>malloc\<close> and is not initialised). \<open>created\<close> lists the loop indices whose thread runs.
\<close>

fun create_threads ::
  "env \<Rightarrow> nat list \<Rightarrow> nat option list \<Rightarrow> nat list \<Rightarrow>
     event list \<times> nat option list \<times> nat list" where
  "create_threads e [] slots created = ([], slots, created)"
| "create_threads e (i # rest) slots created =
     (if \<not> user_data_malloc_ok e i then
        (case create_threads e rest slots created of
           (ev, res) \<Rightarrow> (User_data_malloc_failed i # ev, res))
      else if \<not> pthread_create_ok e i then
        (case create_threads e rest slots created of
           (ev, res) \<Rightarrow> (Thread_create_failed i # ev, res))
      else
        (case create_threads e rest (slots[i := Some (length created)]) (created @ [i]) of
           (ev, res) \<Rightarrow> (Thread_create i # ev, res)))"

text \<open>
  The loop of lines 530-537 from array index \<open>i\<close> on, in a state \<open>s\<close> of the simulation.
  \<^verbatim>\<open>pthread_join\<close> returns once the thread has exited; until then the main thread is
  blocked. On an array element that was never written, the argument is not the id of a joinable
  thread, and POSIX leaves the behaviour of \<^verbatim>\<open>pthread_join\<close> undefined.
\<close>

datatype join_result = Joined | Join_blocked | Join_undefined

fun join_threads :: "nat option list \<Rightarrow> nat \<Rightarrow> system \<Rightarrow> event list \<times> join_result" where
  "join_threads [] i s = ([], Joined)"
| "join_threads (None # rest) i s = ([Thread_join i], Join_undefined)"
| "join_threads (Some w # rest) i s =
     (if terminated (pc (threads s ! w)) then
        (case join_threads rest (i + 1) s of (ev, res) \<Rightarrow> (Thread_join i # ev, res))
      else ([], Join_blocked))"

text \<open>
  Lines 485-557: thread creation, the simulation under the given schedule, the joins, the final
  report and the clean-up. The result is \<open>None\<close> when the main thread does not get to the end
  with this schedule: the schedule cannot be executed, or it leaves a thread running that the
  main thread waits for.
\<close>

definition run_simulation ::
  "env \<Rightarrow> nat \<Rightarrow> nat \<Rightarrow> Show list \<Rightarrow> (nat \<times> nat) list \<Rightarrow> (event list \<times> result) option" where
  "run_simulation e total_users total_shows shs sched =
     (case create_threads e [0..<total_users] (replicate total_users None) [] of
        (ev_create, slots, created) \<Rightarrow>
          (case run sched \<lparr>shows_arr = shs, global_semaphore = concurrent_limit,
                            threads = map (new_thread total_shows) created\<rparr> of
             None \<Rightarrow> None
           | Some s \<Rightarrow>
               (case join_threads slots 0 s of
                  (ev_join, Join_blocked) \<Rightarrow> None
                | (ev_join, Join_undefined) \<Rightarrow> Some (ev_create @ ev_join, Undefined)
                | (ev_join, Joined) \<Rightarrow>
                    (case display_final_status s of
                       (total_initial, total_remaining, total_booked) \<Rightarrow>
                         Some (ev_create @ ev_join @
                               [Final_report total_initial total_remaining total_booked,
                                Threads_free] @
                               cleanup_resources total_shows, Exit 0)))))"

text \<open>\<^verbatim>\<open>main\<close> (lines 398-558): the resource events of the main thread and how the process ends.\<close>

definition main :: "env \<Rightarrow> string list \<Rightarrow> (nat \<times> nat) list \<Rightarrow> (event list \<times> result) option" where
  "main e argv sched =
     (case parse_arguments argv of
        Inl r \<Rightarrow> Some ([], r)
      | Inr (total_users, total_tickets_per_show, total_shows) \<Rightarrow>
          if \<not> sem_init_ok e then Some ([Sem_init_failed], Exit EXIT_FAILURE)
          else
            (case initialize_shows e (nat total_shows) total_tickets_per_show of
               (ev_init, None) \<Rightarrow> Some (Sem_init concurrent_limit # ev_init, Exit EXIT_FAILURE)
             | (ev_init, Some shs) \<Rightarrow>
                 if \<not> threads_malloc_ok e then
                   Some (Sem_init concurrent_limit # ev_init @ [Threads_malloc_failed] @
                         cleanup_resources (nat total_shows), Exit EXIT_FAILURE)
                 else
                   (case run_simulation e (nat total_users) (nat total_shows) shs sched of
                      None \<Rightarrow> None
                    | Some (ev, r) \<Rightarrow>
                        Some (Sem_init concurrent_limit # ev_init @
                              [Threads_malloc (nat total_users)] @ ev, r))))"

definition exit_status :: "(event list \<times> result) option \<Rightarrow> result option" where
  "exit_status r = map_option snd r"

text \<open>The conditions under which a resource of the set-up cannot be initialised.\<close>

definition resource_init_fails :: "env \<Rightarrow> nat \<Rightarrow> bool" where
  "resource_init_fails e total_shows \<longleftrightarrow>
     \<not> sem_init_ok e \<or> \<not> shows_malloc_ok e \<or>
     \<not> list_all (mutex_init_ok e) [0..<total_shows] \<or> \<not> threads_malloc_ok e"

definition all_spawned :: "env \<Rightarrow> nat \<Rightarrow> bool" where
  "all_spawned e total_users \<longleftrightarrow>
     list_all (\<lambda>i. user_data_malloc_ok e i \<and> pthread_create_ok e i) [0..<total_users]"

subsection \<open>Concrete inputs\<close>

definition all_ok :: env where
  "all_ok =
     \<lparr>sem_init_ok = True, shows_malloc_ok = True, mutex_init_ok = (\<lambda>i. True),
      threads_malloc_ok = True, user_data_malloc_ok = (\<lambda>i. True),
      pthread_create_ok = (\<lambda>i. True)\<rparr>"

text \<open>Thread \<open>i\<close> takes \<open>len\<close> steps in a row, with \<^verbatim>\<open>rand()\<close> returning \<open>r\<close>.\<close>

definition solo :: "nat \<Rightarrow> nat \<Rightarrow> nat \<Rightarrow> (nat \<times> nat) list" where
  "solo len r i = replicate len (i, r)"

text \<open>
  One hundred threads run one after the other and \<^verbatim>\<open>rand()\<close> returns 0 to each of them: the
  first two book (seven steps each), the others find show 1 sold out (six steps each).
\<close>

definition all_first_show :: "(nat \<times> nat) list" where
  "all_first_show = concat (map (solo 7 0) [0..<2]) @ concat (map (solo 6 0) [2..<100])"

definition all_first_show_final :: system where
  "all_first_show_final =
     \<lparr>shows_arr = [new_show 2 0 \<lparr>available_tickets := 0\<rparr>, new_show 2 1, new_show 2 2],
      global_semaphore = 3,
      threads = map (\<lambda>i. new_thread 3 i \<lparr>pc := At_exit (if i < 2 then Booked else Sold_out)\<rparr>)
        [0..<100]\<rparr>"

text \<open>
  Five users, one show with one ticket. After \<open>contended_prefix\<close> all five have selected,
  three hold a permit, and the thread of user 2 owns the mutex and is at the test.
  \<open>contended_section\<close> takes that thread through the test and the decrement, and
  \<open>contended_suffix\<close> runs all threads to their end.
\<close>

definition contended_prefix :: "(nat \<times> nat) list" where
  "contended_prefix =
     [(0, 7), (1, 4), (2, 0), (3, 9), (4, 2), (1, 0), (0, 0), (2, 0), (1, 0)]"

definition contended_state :: system where
  "contended_state =
     \<lparr>shows_arr =
       [\<lparr>show_id = 1, available_tickets = 1, initial_tickets = 1, mutex = Some 1\<rparr>],
      global_semaphore = 0,
      threads =
       [\<lparr>user_id = 1, num_shows = 1, selected_show_index = 0, pc = At_mutex_lock\<rparr>,
        \<lparr>user_id = 2, num_shows = 1, selected_show_index = 0, pc = At_check\<rparr>,
        \<lparr>user_id = 3, num_shows = 1, selected_show_index = 0, pc = At_mutex_lock\<rparr>,
        \<lparr>user_id = 4, num_shows = 1, selected_show_index = 0, pc = At_sem_wait\<rparr>,
        \<lparr>user_id = 5, num_shows = 1, selected_show_index = 0, pc = At_sem_wait\<rparr>]\<rparr>"

definition contended_section :: "(nat \<times> nat) list" where
  "contended_section = [(1, 0), (1, 0)]"

definition contended_unlocking :: system where
  "contended_unlocking =
     \<lparr>shows_arr =
       [\<lparr>show_id = 1, available_tickets = 0, initial_tickets = 1, mutex = Some 1\<rparr>],
      global_semaphore = 0,
      threads =
       [\<lparr>user_id = 1, num_shows = 1, selected_show_index = 0, pc = At_mutex_lock\<rparr>,
        \<lparr>user_id = 2, num_shows = 1, selected_show_index = 0, pc = At_mutex_unlock Booked\<rparr>,
        \<lparr>user_id = 3, num_shows = 1, selected_show_index = 0, pc = At_mutex_lock\<rparr>,
        \<lparr>user_id = 4, num_shows = 1, selected_show_index = 0, pc = At_sem_wait\<rparr>,
        \<lparr>user_id = 5, num_shows = 1, selected_show_index = 0, pc = At_sem_wait\<rparr>]\<rparr>"

definition contended_suffix :: "(nat \<times> nat) list" where
  "contended_suffix =
     [(1, 0), (0, 0), (1, 0), (3, 0), (0, 0), (0, 0), (2, 0), (0, 0), (4, 0), (2, 0),
      (2, 0), (3, 0), (2, 0), (3, 0), (3, 0), (4, 0), (3, 0), (4, 0), (4, 0), (4, 0)]"

definition contended_final :: system where
  "contended_final =
     \<lparr>shows_arr =
       [\<lparr>show_id = 1, available_tickets = 0, initial_tickets = 1, mutex = None\<rparr>],
      global_semaphore = 3,
      threads =
       [\<lparr>user_id = 1, num_shows = 1, selected_show_index = 0, pc = At_exit Sold_out\<rparr>,
        \<lparr>user_id = 2, num_shows = 1, selected_show_index = 0, pc = At_exit Booked\<rparr>,
        \<lparr>user_id = 3, num_shows = 1, selected_show_index = 0, pc = At_exit Sold_out\<rparr>,
        \<lparr>user_id = 4, num_shows = 1, selected_show_index = 0, pc = At_exit Sold_out\<rparr>,
        \<lparr>user_id = 5, num_shows = 1, selected_show_index = 0, pc = At_exit Sold_out\<rparr>]\<rparr>"

text \<open>Two users, where \<^verbatim>\<open>pthread_create\<close> fails for the first one.\<close>

definition first_create_fails :: env where
  "first_create_fails = all_ok\<lparr>pthread_create_ok := (\<lambda>i. i \<noteq> 0)\<rparr>"

text \<open>Three shows, where \<^verbatim>\<open>pthread_mutex_init\<close> fails for the third one.\<close>

definition third_mutex_fails :: env where
  "third_mutex_fails = all_ok\<lparr>mutex_init_ok := (\<lambda>i. i \<noteq> 2)\<rparr>"

subsection \<open>Counting the semaphore calls of one thread\<close>

fun at_sem_post :: "pc \<Rightarrow> bool" where
  "at_sem_post (At_sem_post oc) = True"
| "at_sem_post p = False"

text \<open>
  How many times thread \<open>i\<close> returns from \<^verbatim>\<open>sem_wait\<close> (line 217) and how many times it
  calls \<^verbatim>\<open>sem_post\<close> (line 280) while the schedule is executed from state \<open>s\<close>.
\<close>

fun permit_calls :: "nat \<Rightarrow> (nat \<times> nat) list \<Rightarrow> system \<Rightarrow> nat \<times> nat" where
  "permit_calls i [] s = (0, 0)"
| "permit_calls i ((j, r) # sched) s =
     (case book_ticket_step j r s of
        None \<Rightarrow> (0, 0)
      | Some s' \<Rightarrow>
          (case permit_calls i sched s' of
             (waits, posts) \<Rightarrow>
               (waits + (if j = i \<and> pc (threads s ! i) = At_sem_wait then 1 else 0),
                posts + (if j = i \<and> at_sem_post (pc (threads s ! i)) then 1 else 0))))"

text \<open>Whether a thread at a control point has returned from \<^verbatim>\<open>sem_wait\<close>.\<close>

fun past_sem_wait :: "pc \<Rightarrow> bool" where
  "past_sem_wait At_select = False"
| "past_sem_wait At_sem_wait = False"
| "past_sem_wait p = True"

section \<open>The protocol preserves its invariants\<close>

lemma step_cases [consumes 1, case_names select sem_wait mutex_lock check decrement mutex_unlock sem_post]:
  assumes "book_ticket_step i r s = Some s'"
  obtains
    "i < length (threads s)" "pc (threads s ! i) = At_select"
      "s' = s\<lparr>threads := (threads s)[i := (threads s ! i)
         \<lparr>selected_show_index := r mod num_shows (threads s ! i), pc := At_sem_wait\<rparr>]\<rparr>"
  | "i < length (threads s)" "pc (threads s ! i) = At_sem_wait" "0 < global_semaphore s"
      "s' = s\<lparr>global_semaphore := global_semaphore s - 1,
              threads := (threads s)[i := (threads s ! i)\<lparr>pc := At_mutex_lock\<rparr>]\<rparr>"
  | "i < length (threads s)" "pc (threads s ! i) = At_mutex_lock"
      "mutex (shows_arr s ! selected_show_index (threads s ! i)) = None"
      "s' = s\<lparr>shows_arr := (shows_arr s)[selected_show_index (threads s ! i) :=
                (shows_arr s ! selected_show_index (threads s ! i))\<lparr>mutex := Some i\<rparr>],
              threads := (threads s)[i := (threads s ! i)\<lparr>pc := At_check\<rparr>]\<rparr>"
  | "i < length (threads s)" "pc (threads s ! i) = At_check"
      "s' = s\<lparr>threads := (threads s)[i := (threads s ! i)
         \<lparr>pc := (if 0 < available_tickets (shows_arr s ! selected_show_index (threads s ! i))
                 then At_decrement else At_mutex_unlock Sold_out)\<rparr>]\<rparr>"
  | "i < length (threads s)" "pc (threads s ! i) = At_decrement"
      "s' = s\<lparr>shows_arr := (shows_arr s)[selected_show_index (threads s ! i) :=
                (shows_arr s ! selected_show_index (threads s ! i))
                  \<lparr>available_tickets :=
                     available_tickets (shows_arr s ! selected_show_index (threads s ! i)) - 1\<rparr>],
              threads := (threads s)[i := (threads s ! i)\<lparr>pc := At_mutex_unlock Booked\<rparr>]\<rparr>"
  | oc where "i < length (threads s)" "pc (threads s ! i) = At_mutex_unlock oc"
      "s' = s\<lparr>shows_arr := (shows_arr s)[selected_show_index (threads s ! i) :=
                (shows_arr s ! selected_show_index (threads s ! i))\<lparr>mutex := None\<rparr>],
              threads := (threads s)[i := (threads s ! i)\<lparr>pc := At_sem_post oc\<rparr>]\<rparr>"
  | oc where "i < length (threads s)" "pc (threads s ! i) = At_sem_post oc"
      "s' = s\<lparr>global_semaphore := global_semaphore s + 1,
              threads := (threads s)[i := (threads s ! i)\<lparr>pc := At_exit oc\<rparr>]\<rparr>"
  using assms unfolding book_ticket_step_def Let_def
  by (cases "pc (threads s ! i)") (auto split: if_splits option.splits)

lemma well_formed_step:
  assumes "book_ticket_step i r s = Some s'" "well_formed s"
  shows "well_formed s'"
  using assms
  by (cases rule: step_cases) (auto simp: well_formed_def nth_list_update)

lemma mutex_owned_step:
  assumes step: "book_ticket_step i r s = Some s'" and wf: "well_formed s" and mo: "mutex_owned s"
  shows "mutex_owned s'"
proof -
  let ?sel = "\<lambda>j. selected_show_index (threads s ! j)"
  from mo have own: "\<And>j. j < length (threads s) \<Longrightarrow> in_critical_section (pc (threads s ! j))
      \<Longrightarrow> mutex (shows_arr s ! ?sel j) = Some j"
    and held: "\<And>k j. k < length (shows_arr s) \<Longrightarrow> mutex (shows_arr s ! k) = Some j
      \<Longrightarrow> j < length (threads s) \<and> in_critical_section (pc (threads s ! j)) \<and> ?sel j = k"
    unfolding mutex_owned_def by blast+
  from wf have rng: "\<And>j. j < length (threads s) \<Longrightarrow> pc (threads s ! j) \<noteq> At_select
      \<Longrightarrow> ?sel j < length (shows_arr s)"
    unfolding well_formed_def by blast
  from step show ?thesis
  proof (cases rule: step_cases)
    case select
    show ?thesis unfolding mutex_owned_def
    proof (rule conjI; intro allI impI)
      fix j assume "j < length (threads s')" "in_critical_section (pc (threads s' ! j))"
      then show "mutex (shows_arr s' ! selected_show_index (threads s' ! j)) = Some j"
        using own[of j] select by (cases "j = i") simp_all
    next
      fix k j assume "k < length (shows_arr s')" "mutex (shows_arr s' ! k) = Some j"
      then show "j < length (threads s') \<and> in_critical_section (pc (threads s' ! j)) \<and>
          selected_show_index (threads s' ! j) = k"
        using held[of k j] select by (cases "j = i") auto
    qed
  next
    case sem_wait
    show ?thesis unfolding mutex_owned_def
    proof (rule conjI; intro allI impI)
      fix j assume "j < length (threads s')" "in_critical_section (pc (threads s' ! j))"
      then show "mutex (shows_arr s' ! selected_show_index (threads s' ! j)) = Some j"
        using own[of j] sem_wait by (cases "j = i") simp_all
    next
      fix k j assume "k < length (shows_arr s')" "mutex (shows_arr s' ! k) = Some j"
      then show "j < length (threads s') \<and> in_critical_section (pc (threads s' ! j)) \<and>
          selected_show_index (threads s' ! j) = k"
        using held[of k j] sem_wait by (cases "j = i") auto
    qed
  next
    case mutex_lock
    have ki: "?sel i < length (shows_arr s)" using rng[of i] mutex_lock by simp
    show ?thesis unfolding mutex_owned_def
    proof (rule conjI; intro allI impI)
      fix j assume a: "j < length (threads s')" "in_critical_section (pc (threads s' ! j))"
      show "mutex (shows_arr s' ! selected_show_index (threads s' ! j)) = Some j"
      proof (cases "j = i")
        case True
        then show ?thesis using mutex_lock ki by simp
      next
        case False
        then have "mutex (shows_arr s ! ?sel j) = Some j" using a own[of j] mutex_lock by simp
        moreover from this have "?sel j \<noteq> ?sel i" using mutex_lock(3) by auto
        ultimately show ?thesis using False mutex_lock by simp
      qed
    next
      fix k j assume a: "k < length (shows_arr s')" "mutex (shows_arr s' ! k) = Some j"
      show "j < length (threads s') \<and> in_critical_section (pc (threads s' ! j)) \<and>
          selected_show_index (threads s' ! j) = k"
      proof (cases "k = ?sel i")
        case True
        then show ?thesis using a mutex_lock ki by simp
      next
        case False
        then have m: "mutex (shows_arr s ! k) = Some j" "k < length (shows_arr s)"
          using a mutex_lock by simp_all
        from held[OF m(2) m(1)] False have "j \<noteq> i" by auto
        then show ?thesis using held[OF m(2) m(1)] mutex_lock by simp
      qed
    qed
  next
    case check
    show ?thesis unfolding mutex_owned_def
    proof (rule conjI; intro allI impI)
      fix j assume "j < length (threads s')" "in_critical_section (pc (threads s' ! j))"
      then show "mutex (shows_arr s' ! selected_show_index (threads s' ! j)) = Some j"
        using own[of j] check by (cases "j = i") simp_all
    next
      fix k j assume "k < length (shows_arr s')" "mutex (shows_arr s' ! k) = Some j"
      then show "j < length (threads s') \<and> in_critical_section (pc (threads s' ! j)) \<and>
          selected_show_index (threads s' ! j) = k"
        using held[of k j] check by (cases "j = i") auto
    qed
  next
    case decrement
    have ki: "?sel i < length (shows_arr s)" using rng[of i] decrement by simp
    show ?thesis unfolding mutex_owned_def
    proof (rule conjI; intro allI impI)
      fix j assume "j < length (threads s')" "in_critical_section (pc (threads s' ! j))"
      then show "mutex (shows_arr s' ! selected_show_index (threads s' ! j)) = Some j"
        using own[of j] decrement ki rng[of j]
        by (cases "j = i"; cases "?sel j = ?sel i") (auto  simp: nth_list_update)
    next
      fix k j assume "k < length (shows_arr s')" "mutex (shows_arr s' ! k) = Some j"
      then show "j < length (threads s') \<and> in_critical_section (pc (threads s' ! j)) \<and>
          selected_show_index (threads s' ! j) = k"
        using held[of k j] decrement ki 
        by (cases "j = i"; cases "k = ?sel i") (auto simp: nth_list_update)
    qed
  next
    case (mutex_unlock oc)
    have ki: "?sel i < length (shows_arr s)" using rng[of i] mutex_unlock by simp
    have oi: "mutex (shows_arr s ! ?sel i) = Some i" using own[of i] mutex_unlock by simp
    show ?thesis unfolding mutex_owned_def
    proof (rule conjI; intro allI impI)
      fix j assume a: "j < length (threads s')" "in_critical_section (pc (threads s' ! j))"
      show "mutex (shows_arr s' ! selected_show_index (threads s' ! j)) = Some j"
      proof (cases "j = i")
        case True
        then show ?thesis using a mutex_unlock by simp
      next
        case False
        then have "mutex (shows_arr s ! ?sel j) = Some j" using a own[of j] mutex_unlock by simp
        moreover from this have "?sel j \<noteq> ?sel i" using oi False by auto
        ultimately show ?thesis using False mutex_unlock by simp
      qed
    next
      fix k j assume a: "k < length (shows_arr s')" "mutex (shows_arr s' ! k) = Some j"
      show "j < length (threads s') \<and> in_critical_section (pc (threads s' ! j)) \<and>
          selected_show_index (threads s' ! j) = k"
      proof (cases "k = ?sel i")
        case True
        then show ?thesis using a mutex_unlock ki by simp
      next
        case False
        then have m: "mutex (shows_arr s ! k) = Some j" "k < length (shows_arr s)"
          using a mutex_unlock by simp_all
        from held[OF m(2) m(1)] False have "j \<noteq> i" by auto
        then show ?thesis using held[OF m(2) m(1)] mutex_unlock by simp
      qed
    qed
  next
    case (sem_post oc)
    show ?thesis unfolding mutex_owned_def
    proof (rule conjI; intro allI impI)
      fix j assume "j < length (threads s')" "in_critical_section (pc (threads s' ! j))"
      then show "mutex (shows_arr s' ! selected_show_index (threads s' ! j)) = Some j"
        using own[of j] sem_post by (cases "j = i") simp_all
    next
      fix k j assume "k < length (shows_arr s')" "mutex (shows_arr s' ! k) = Some j"
      then show "j < length (threads s') \<and> in_critical_section (pc (threads s' ! j)) \<and>
          selected_show_index (threads s' ! j) = k"
        using held[of k j] sem_post by (cases "j = i") auto
    qed
  qed
qed

lemma nth_update_same_field:
  assumes "\<And>x. f (g x) = f x"
  shows "f (xs[k := g (xs ! k)] ! k') = f (xs ! k')"
proof (cases "k < length xs")
  case True
  then show ?thesis using assms by (cases "k = k'") simp_all
next
  case False
  then show ?thesis by (simp add: list_update_beyond)
qed

lemma available_after_mutex_update [simp]:
  "available_tickets (xs[k := (xs ! k)\<lparr>mutex := m\<rparr>] ! k') = available_tickets (xs ! k')"
  by (rule nth_update_same_field) simp

lemma initial_after_mutex_update [simp]:
  "initial_tickets (xs[k := (xs ! k)\<lparr>mutex := m\<rparr>] ! k') = initial_tickets (xs ! k')"
  by (rule nth_update_same_field) simp

lemma initial_after_available_update [simp]:
  "initial_tickets (xs[k := (xs ! k)\<lparr>available_tickets := v\<rparr>] ! k') = initial_tickets (xs ! k')"
  by (rule nth_update_same_field) simp

lemma mutex_after_available_update [simp]:
  "mutex (xs[k := (xs ! k)\<lparr>available_tickets := v\<rparr>] ! k') = mutex (xs ! k')"
  by (rule nth_update_same_field) simp

lemma tickets_bounded_step:
  assumes step: "book_ticket_step i r s = Some s'" and wf: "well_formed s"
    and tb: "tickets_bounded s" and ck: "checked_ok s"
  shows "tickets_bounded s'"
proof -
  from tb have b: "\<And>k. k < length (shows_arr s) \<Longrightarrow>
      0 \<le> available_tickets (shows_arr s ! k) \<and>
      available_tickets (shows_arr s ! k) \<le> initial_tickets (shows_arr s ! k)"
    unfolding tickets_bounded_def by blast
  from step show ?thesis
  proof (cases rule: step_cases)
    case decrement
    have pos: "0 < available_tickets (shows_arr s ! selected_show_index (threads s ! i))"
      using ck decrement(1,2) unfolding checked_ok_def by blast
    show ?thesis unfolding tickets_bounded_def
    proof (intro allI impI)
      fix k assume "k < length (shows_arr s')"
      then show "0 \<le> available_tickets (shows_arr s' ! k) \<and>
        available_tickets (shows_arr s' ! k) \<le> initial_tickets (shows_arr s' ! k)"
        using b[of k] pos decrement(3)
        by (cases "k = selected_show_index (threads s ! i)") auto
    qed
  qed (use b in \<open>simp_all add: tickets_bounded_def\<close>)
qed

lemma checked_ok_step:
  assumes step: "book_ticket_step i r s = Some s'" and wf: "well_formed s"
    and mo: "mutex_owned s" and tb: "tickets_bounded s" and ck: "checked_ok s"
  shows "checked_ok s'"
proof -
  let ?sel = "\<lambda>j. selected_show_index (threads s ! j)"
  let ?av = "\<lambda>k. available_tickets (shows_arr s ! k)"
  from ck have dec: "\<And>j. j < length (threads s) \<Longrightarrow> pc (threads s ! j) = At_decrement
      \<Longrightarrow> 0 < ?av (?sel j)"
    and sold: "\<And>j. j < length (threads s) \<Longrightarrow> outcome_of (pc (threads s ! j)) = Some Sold_out
      \<Longrightarrow> ?av (?sel j) = 0"
    unfolding checked_ok_def by blast+
  from mo have own: "\<And>j. j < length (threads s) \<Longrightarrow> in_critical_section (pc (threads s ! j))
      \<Longrightarrow> mutex (shows_arr s ! ?sel j) = Some j"
    unfolding mutex_owned_def by blast
  from wf have rng: "\<And>j. j < length (threads s) \<Longrightarrow> pc (threads s ! j) \<noteq> At_select
      \<Longrightarrow> ?sel j < length (shows_arr s)"
    unfolding well_formed_def by blast
  from tb have nonneg: "\<And>k. k < length (shows_arr s) \<Longrightarrow> 0 \<le> ?av k"
    unfolding tickets_bounded_def by blast
  from step show ?thesis
  proof (cases rule: step_cases)
    case select
    show ?thesis unfolding checked_ok_def
    proof (intro allI impI)
      fix j assume "j < length (threads s')"
      then show "(pc (threads s' ! j) = At_decrement \<longrightarrow>
           0 < available_tickets (shows_arr s' ! selected_show_index (threads s' ! j))) \<and>
          (outcome_of (pc (threads s' ! j)) = Some Sold_out \<longrightarrow>
           available_tickets (shows_arr s' ! selected_show_index (threads s' ! j)) = 0)"
        using dec[of j] sold[of j] select by (cases "j = i") simp_all
    qed
  next
    case sem_wait
    show ?thesis unfolding checked_ok_def
    proof (intro allI impI)
      fix j assume "j < length (threads s')"
      then show "(pc (threads s' ! j) = At_decrement \<longrightarrow>
           0 < available_tickets (shows_arr s' ! selected_show_index (threads s' ! j))) \<and>
          (outcome_of (pc (threads s' ! j)) = Some Sold_out \<longrightarrow>
           available_tickets (shows_arr s' ! selected_show_index (threads s' ! j)) = 0)"
        using dec[of j] sold[of j] sem_wait by (cases "j = i") simp_all
    qed
  next
    case mutex_lock
    have ki: "?sel i < length (shows_arr s)" using rng[of i] mutex_lock by simp
    show ?thesis unfolding checked_ok_def
    proof (intro allI impI)
      fix j assume "j < length (threads s')"
      then show "(pc (threads s' ! j) = At_decrement \<longrightarrow>
           0 < available_tickets (shows_arr s' ! selected_show_index (threads s' ! j))) \<and>
          (outcome_of (pc (threads s' ! j)) = Some Sold_out \<longrightarrow>
           available_tickets (shows_arr s' ! selected_show_index (threads s' ! j)) = 0)"
        using dec[of j] sold[of j] mutex_lock ki
        by (cases "j = i"; cases "?sel j = ?sel i") (simp_all add: nth_list_update)
    qed
  next
    case check
    have ki: "?sel i < length (shows_arr s)" using rng[of i] check by simp
    show ?thesis unfolding checked_ok_def
    proof (intro allI impI)
      fix j assume "j < length (threads s')"
      then show "(pc (threads s' ! j) = At_decrement \<longrightarrow>
           0 < available_tickets (shows_arr s' ! selected_show_index (threads s' ! j))) \<and>
          (outcome_of (pc (threads s' ! j)) = Some Sold_out \<longrightarrow>
           available_tickets (shows_arr s' ! selected_show_index (threads s' ! j)) = 0)"
        using dec[of j] sold[of j] check nonneg[OF ki]
        by (cases "j = i") auto
    qed
  next
    case decrement
    have ki: "?sel i < length (shows_arr s)" using rng[of i] decrement by simp
    have oi: "mutex (shows_arr s ! ?sel i) = Some i" using own[of i] decrement by simp
    have pos: "0 < ?av (?sel i)" using dec[of i] decrement by simp
    show ?thesis unfolding checked_ok_def
    proof (intro allI impI)
      fix j assume a: "j < length (threads s')"
      show "(pc (threads s' ! j) = At_decrement \<longrightarrow>
           0 < available_tickets (shows_arr s' ! selected_show_index (threads s' ! j))) \<and>
          (outcome_of (pc (threads s' ! j)) = Some Sold_out \<longrightarrow>
           available_tickets (shows_arr s' ! selected_show_index (threads s' ! j)) = 0)"
      proof (cases "j = i")
        case True
        then show ?thesis using decrement by simp
      next
        case False
        have jl: "j < length (threads s)" using a decrement by simp
        show ?thesis
        proof (cases "?sel j = ?sel i")
          case True
          have "pc (threads s ! j) \<noteq> At_decrement"
            using own[OF jl] oi True \<open>j \<noteq> i\<close> by auto
          moreover have "outcome_of (pc (threads s ! j)) \<noteq> Some Sold_out"
            using sold[OF jl] pos True by auto
          ultimately show ?thesis using False decrement by simp
        next
          case sel: False
          then show ?thesis using False decrement dec[OF jl] sold[OF jl] by simp
        qed
      qed
    qed
  next
    case (mutex_unlock oc)
    have ki: "?sel i < length (shows_arr s)" using rng[of i] mutex_unlock by simp
    show ?thesis unfolding checked_ok_def
    proof (intro allI impI)
      fix j assume "j < length (threads s')"
      then show "(pc (threads s' ! j) = At_decrement \<longrightarrow>
           0 < available_tickets (shows_arr s' ! selected_show_index (threads s' ! j))) \<and>
          (outcome_of (pc (threads s' ! j)) = Some Sold_out \<longrightarrow>
           available_tickets (shows_arr s' ! selected_show_index (threads s' ! j)) = 0)"
        using dec[of j] sold[of j] mutex_unlock ki
        by (cases "j = i"; cases "?sel j = ?sel i") (simp_all add: nth_list_update)
    qed
  next
    case (sem_post oc)
    show ?thesis unfolding checked_ok_def
    proof (intro allI impI)
      fix j assume "j < length (threads s')"
      then show "(pc (threads s' ! j) = At_decrement \<longrightarrow>
           0 < available_tickets (shows_arr s' ! selected_show_index (threads s' ! j))) \<and>
          (outcome_of (pc (threads s' ! j)) = Some Sold_out \<longrightarrow>
           available_tickets (shows_arr s' ! selected_show_index (threads s' ! j)) = 0)"
        using dec[of j] sold[of j] sem_post by (cases "j = i") simp_all
    qed
  qed
qed

lemma count_list_update:
  "i < length xs \<Longrightarrow>
     length (filter P (xs[i := x])) + (if P (xs ! i) then 1 else 0) =
     length (filter P xs) + (if P x then 1 else 0)"
proof (induction xs arbitrary: i)
  case Nil
  then show ?case by simp
next
  case (Cons a xs)
  then show ?case by (cases i) auto
qed

lemma permits_conserved_step:
  assumes step: "book_ticket_step i r s = Some s'" and pc: "permits_conserved s"
  shows "permits_conserved s'"
  using step
proof (cases rule: step_cases)
  case select
  then show ?thesis
    using pc count_list_update[of i "threads s" "\<lambda>t. holds_permit (pc t)"
        "(threads s ! i)\<lparr>selected_show_index := r mod num_shows (threads s ! i), pc := At_sem_wait\<rparr>"]
    by (simp add: permits_conserved_def permits_held_def)
next
  case sem_wait
  then show ?thesis
    using pc count_list_update[of i "threads s" "\<lambda>t. holds_permit (pc t)"
        "(threads s ! i)\<lparr>pc := At_mutex_lock\<rparr>"]
    by (simp add: permits_conserved_def permits_held_def)
next
  case mutex_lock
  then show ?thesis
    using pc count_list_update[of i "threads s" "\<lambda>t. holds_permit (pc t)"
        "(threads s ! i)\<lparr>pc := At_check\<rparr>"]
    by (simp add: permits_conserved_def permits_held_def)
next
  case check
  then show ?thesis
    using pc count_list_update[of i "threads s" "\<lambda>t. holds_permit (pc t)"
        "(threads s ! i)\<lparr>pc := At_decrement\<rparr>"]
      count_list_update[of i "threads s" "\<lambda>t. holds_permit (pc t)"
        "(threads s ! i)\<lparr>pc := At_mutex_unlock Sold_out\<rparr>"]
    by (simp add: permits_conserved_def permits_held_def)
next
  case decrement
  then show ?thesis
    using pc count_list_update[of i "threads s" "\<lambda>t. holds_permit (pc t)"
        "(threads s ! i)\<lparr>pc := At_mutex_unlock Booked\<rparr>"]
    by (simp add: permits_conserved_def permits_held_def)
next
  case (mutex_unlock oc)
  then show ?thesis
    using pc count_list_update[of i "threads s" "\<lambda>t. holds_permit (pc t)"
        "(threads s ! i)\<lparr>pc := At_sem_post oc\<rparr>"]
    by (simp add: permits_conserved_def permits_held_def)
next
  case (sem_post oc)
  then show ?thesis
    using pc count_list_update[of i "threads s" "\<lambda>t. holds_permit (pc t)"
        "(threads s ! i)\<lparr>pc := At_exit oc\<rparr>"]
    by (simp add: permits_conserved_def permits_held_def)
qed

lemma booked_for_update:
  assumes "i < length ts"
  shows "booked_for k (ts[i := t']) +
           (if outcome_of (pc (ts ! i)) = Some Booked \<and>
               selected_show_index (ts ! i) = k then 1 else 0) =
         booked_for k ts +
           (if outcome_of (pc t') = Some Booked \<and> selected_show_index t' = k then 1 else 0)"
  unfolding booked_for_def
  using count_list_update[OF assms,
      of "\<lambda>t. outcome_of (pc t) = Some Booked \<and> selected_show_index t = k" t']
  by simp

lemma bookings_accounted_step:
  assumes step: "book_ticket_step i r s = Some s'" and wf: "well_formed s"
    and ba: "bookings_accounted s"
  shows "bookings_accounted s'"
proof -
  let ?sel = "\<lambda>j. selected_show_index (threads s ! j)"
  from ba have acc: "\<And>k. k < length (shows_arr s) \<Longrightarrow>
      initial_tickets (shows_arr s ! k) - available_tickets (shows_arr s ! k) =
        int (booked_for k (threads s))"
    unfolding bookings_accounted_def by blast
  from wf have rng: "\<And>j. j < length (threads s) \<Longrightarrow> pc (threads s ! j) \<noteq> At_select
      \<Longrightarrow> ?sel j < length (shows_arr s)"
    unfolding well_formed_def by blast
  from step show ?thesis
  proof (cases rule: step_cases)
    case select
    show ?thesis unfolding bookings_accounted_def
    proof (intro allI impI)
      fix k assume "k < length (shows_arr s')"
      then show "initial_tickets (shows_arr s' ! k) - available_tickets (shows_arr s' ! k) =
          int (booked_for k (threads s'))"
        using acc[of k] select booked_for_update[OF select(1), of k
            "(threads s ! i)\<lparr>selected_show_index := r mod num_shows (threads s ! i), pc := At_sem_wait\<rparr>"]
        by simp
    qed
  next
    case sem_wait
    show ?thesis unfolding bookings_accounted_def
    proof (intro allI impI)
      fix k assume "k < length (shows_arr s')"
      then show "initial_tickets (shows_arr s' ! k) - available_tickets (shows_arr s' ! k) =
          int (booked_for k (threads s'))"
        using acc[of k] sem_wait booked_for_update[OF sem_wait(1), of k
            "(threads s ! i)\<lparr>pc := At_mutex_lock\<rparr>"]
        by simp
    qed
  next
    case mutex_lock
    show ?thesis unfolding bookings_accounted_def
    proof (intro allI impI)
      fix k assume "k < length (shows_arr s')"
      then show "initial_tickets (shows_arr s' ! k) - available_tickets (shows_arr s' ! k) =
          int (booked_for k (threads s'))"
        using acc[of k] mutex_lock booked_for_update[OF mutex_lock(1), of k
            "(threads s ! i)\<lparr>pc := At_check\<rparr>"]
        by simp
    qed
  next
    case check
    show ?thesis unfolding bookings_accounted_def
    proof (intro allI impI)
      fix k assume "k < length (shows_arr s')"
      then show "initial_tickets (shows_arr s' ! k) - available_tickets (shows_arr s' ! k) =
          int (booked_for k (threads s'))"
        using acc[of k] check
          booked_for_update[OF check(1), of k "(threads s ! i)\<lparr>pc := At_decrement\<rparr>"]
          booked_for_update[OF check(1), of k "(threads s ! i)\<lparr>pc := At_mutex_unlock Sold_out\<rparr>"]
        by simp
    qed
  next
    case decrement
    have ki: "?sel i < length (shows_arr s)" using rng[of i] decrement by simp
    show ?thesis unfolding bookings_accounted_def
    proof (intro allI impI)
      fix k assume "k < length (shows_arr s')"
      then show "initial_tickets (shows_arr s' ! k) - available_tickets (shows_arr s' ! k) =
          int (booked_for k (threads s'))"
        using acc[of k] decrement ki
          booked_for_update[OF decrement(1), of k "(threads s ! i)\<lparr>pc := At_mutex_unlock Booked\<rparr>"]
        by (cases "k = ?sel i") simp_all
    qed
  next
    case (mutex_unlock oc)
    show ?thesis unfolding bookings_accounted_def
    proof (intro allI impI)
      fix k assume "k < length (shows_arr s')"
      then show "initial_tickets (shows_arr s' ! k) - available_tickets (shows_arr s' ! k) =
          int (booked_for k (threads s'))"
        using acc[of k] mutex_unlock
          booked_for_update[OF mutex_unlock(1), of k "(threads s ! i)\<lparr>pc := At_sem_post oc\<rparr>"]
        by simp
    qed
  next
    case (sem_post oc)
    show ?thesis unfolding bookings_accounted_def
    proof (intro allI impI)
      fix k assume "k < length (shows_arr s')"
      then show "initial_tickets (shows_arr s' ! k) - available_tickets (shows_arr s' ! k) =
          int (booked_for k (threads s'))"
        using acc[of k] sem_post
          booked_for_update[OF sem_post(1), of k "(threads s ! i)\<lparr>pc := At_exit oc\<rparr>"]
        by simp
    qed
  qed
qed

lemma invariant_step:
  "book_ticket_step i r s = Some s' \<Longrightarrow> invariant s \<Longrightarrow> invariant s'"
proof -
  assume step: "book_ticket_step i r s = Some s'" and inv: "invariant s"
  from inv have wf: "well_formed s" and mo: "mutex_owned s" and tb: "tickets_bounded s"
    and ck: "checked_ok s" and pc: "permits_conserved s" and ba: "bookings_accounted s"
    unfolding invariant_def by simp_all
  show "invariant s'"
    unfolding invariant_def
    using well_formed_step[OF step wf] mutex_owned_step[OF step wf mo]
      tickets_bounded_step[OF step wf tb ck] checked_ok_step[OF step wf mo tb ck]
      permits_conserved_step[OF step pc] bookings_accounted_step[OF step wf ba]
    by simp
qed

lemma invariant_run:
  "run sched s = Some s' \<Longrightarrow> invariant s \<Longrightarrow> invariant s'"
proof (induction sched arbitrary: s)
  case Nil
  then show ?case by simp
next
  case (Cons a sched)
  obtain i r where a: "a = (i, r)" by (cases a)
  from Cons.prems(1) a obtain s1 where s1: "book_ticket_step i r s = Some s1"
    and rest: "run sched s1 = Some s'"
    by (auto split: option.splits)
  show ?case by (rule Cons.IH[OF rest invariant_step[OF s1 Cons.prems(2)]])
qed

lemma filter_new_threads:
  "(\<And>t. pc t = At_select \<Longrightarrow> \<not> P t) \<Longrightarrow> filter P (map (new_thread n) created) = []"
  by (induction created) (simp_all add: new_thread_def)

lemma invariant_start:
  assumes "0 < total_shows" "0 \<le> tickets_per_show"
  shows "invariant (simulation_start created tickets_per_show total_shows)"
proof -
  let ?s = "simulation_start created tickets_per_show total_shows"
  have wf: "well_formed ?s"
    using assms by (simp add: well_formed_def simulation_start_def new_thread_def)
  have mo: "mutex_owned ?s"
    by (simp add: mutex_owned_def simulation_start_def new_thread_def new_show_def)
  have tb: "tickets_bounded ?s"
    using assms by (simp add: tickets_bounded_def simulation_start_def new_show_def)
  have ck: "checked_ok ?s"
    by (simp add: checked_ok_def simulation_start_def new_thread_def)
  have pc: "permits_conserved ?s"
    by (simp add: permits_conserved_def permits_held_def simulation_start_def
        filter_new_threads)
  have ba: "bookings_accounted ?s"
    by (simp add: bookings_accounted_def booked_for_def simulation_start_def
        filter_new_threads new_show_def)
  from wf mo tb ck pc ba show ?thesis unfolding invariant_def by blast
qed

lemma map_update_same_field:
  assumes "\<And>x. f (g x) = f x"
  shows "map f (xs[k := g (xs ! k)]) = map f xs"
proof -
  have "f (xs[k := g (xs ! k)] ! j) = f (xs ! j)" for j
    using assms by (rule nth_update_same_field)
  then show ?thesis by (simp add: list_eq_iff_nth_eq)
qed

lemma capacity_step:
  assumes "book_ticket_step i r s = Some s'"
  shows "map initial_tickets (shows_arr s') = map initial_tickets (shows_arr s)"
    and "map show_id (shows_arr s') = map show_id (shows_arr s)"
    and "length (threads s') = length (threads s)"
  using assms
  by (cases rule: step_cases; simp add: map_update_same_field)+

lemma capacity_run:
  "run sched s = Some s' \<Longrightarrow>
     map initial_tickets (shows_arr s') = map initial_tickets (shows_arr s) \<and>
     map show_id (shows_arr s') = map show_id (shows_arr s) \<and>
     length (threads s') = length (threads s)"
proof (induction sched arbitrary: s)
  case Nil
  then show ?case by simp
next
  case (Cons a sched)
  obtain i r where a: "a = (i, r)" by (cases a)
  from Cons.prems a obtain s1 where s1: "book_ticket_step i r s = Some s1"
    and rest: "run sched s1 = Some s'"
    by (auto split: option.splits)
  from capacity_step[OF s1] Cons.IH[OF rest] show ?case by simp
qed

lemma sum_list_map_update:
  fixes f :: "'a \<Rightarrow> nat"
  shows "i < length xs \<Longrightarrow>
     sum_list (map f (xs[i := x])) + f (xs ! i) = sum_list (map f xs) + f x"
proof (induction xs arbitrary: i)
  case Nil
  then show ?case by simp
next
  case (Cons a xs)
  then show ?case by (cases i) auto
qed

lemma work_left_step:
  assumes "book_ticket_step i r s = Some s'"
  shows "work_left s' < work_left s"
  using assms
proof (cases rule: step_cases)
  case select
  then show ?thesis
    using sum_list_map_update[OF select(1), of "\<lambda>t. steps_left (pc t)"
        "(threads s ! i)\<lparr>selected_show_index := r mod num_shows (threads s ! i), pc := At_sem_wait\<rparr>"]
    by (simp add: work_left_def)
next
  case sem_wait
  then show ?thesis
    using sum_list_map_update[OF sem_wait(1), of "\<lambda>t. steps_left (pc t)"
        "(threads s ! i)\<lparr>pc := At_mutex_lock\<rparr>"]
    by (simp add: work_left_def)
next
  case mutex_lock
  then show ?thesis
    using sum_list_map_update[OF mutex_lock(1), of "\<lambda>t. steps_left (pc t)"
        "(threads s ! i)\<lparr>pc := At_check\<rparr>"]
    by (simp add: work_left_def)
next
  case check
  then show ?thesis
    using sum_list_map_update[OF check(1), of "\<lambda>t. steps_left (pc t)"
        "(threads s ! i)\<lparr>pc := At_decrement\<rparr>"]
      sum_list_map_update[OF check(1), of "\<lambda>t. steps_left (pc t)"
        "(threads s ! i)\<lparr>pc := At_mutex_unlock Sold_out\<rparr>"]
    by (simp add: work_left_def)
next
  case decrement
  then show ?thesis
    using sum_list_map_update[OF decrement(1), of "\<lambda>t. steps_left (pc t)"
        "(threads s ! i)\<lparr>pc := At_mutex_unlock Booked\<rparr>"]
    by (simp add: work_left_def)
next
  case (mutex_unlock oc)
  then show ?thesis
    using sum_list_map_update[OF mutex_unlock(1), of "\<lambda>t. steps_left (pc t)"
        "(threads s ! i)\<lparr>pc := At_sem_post oc\<rparr>"]
    by (simp add: work_left_def)
next
  case (sem_post oc)
  then show ?thesis
    using sum_list_map_update[OF sem_post(1), of "\<lambda>t. steps_left (pc t)"
        "(threads s ! i)\<lparr>pc := At_exit oc\<rparr>"]
    by (simp add: work_left_def)
qed

lemma run_length_bounded:
  "run sched s = Some s' \<Longrightarrow> length sched + work_left s' \<le> work_left s"
proof (induction sched arbitrary: s)
  case Nil
  then show ?case by simp
next
  case (Cons a sched)
  obtain i r where a: "a = (i, r)" by (cases a)
  from Cons.prems a obtain s1 where s1: "book_ticket_step i r s = Some s1"
    and rest: "run sched s1 = Some s'"
    by (auto split: option.splits)
  from work_left_step[OF s1] Cons.IH[OF rest] show ?case by simp
qed

lemma work_left_start:
  "work_left (simulation_start created tickets_per_show total_shows) = 7 * length created"
  by (induction created) (simp_all add: work_left_def simulation_start_def new_thread_def)

lemma run_append:
  "run (xs @ ys) s = (case run xs s of None \<Rightarrow> None | Some s1 \<Rightarrow> run ys s1)"
  by (induction xs arbitrary: s) (auto split: option.splits)

lemma step_enabled:
  assumes "i < length (threads s)"
    and "pc (threads s ! i) = At_sem_wait \<Longrightarrow> 0 < global_semaphore s"
    and "pc (threads s ! i) = At_mutex_lock \<Longrightarrow>
           mutex (shows_arr s ! selected_show_index (threads s ! i)) = None"
    and "\<not> terminated (pc (threads s ! i))"
  shows "\<exists>s'. book_ticket_step i r s = Some s'"
  using assms unfolding book_ticket_step_def Let_def
  by (cases "pc (threads s ! i)") auto

lemma in_critical_section_enabled:
  "in_critical_section p \<Longrightarrow> \<not> terminated p \<and> p \<noteq> At_sem_wait \<and> p \<noteq> At_mutex_lock"
  by (cases p) simp_all

lemma permits_held_zero:
  "(\<And>t. t \<in> set ts \<Longrightarrow> \<not> holds_permit (pc t)) \<Longrightarrow> permits_held ts = 0"
  by (simp add: permits_held_def)

lemma no_deadlock:
  assumes inv: "invariant s" and live: "\<not> all_terminated s"
  shows "\<exists>i r s'. book_ticket_step i r s = Some s'"
proof -
  let ?p = "\<lambda>j. pc (threads s ! j)"
  from inv have wf: "well_formed s" and mo: "mutex_owned s" and pcs: "permits_conserved s"
    unfolding invariant_def by simp_all
  from live obtain i where i: "i < length (threads s)" "\<not> terminated (?p i)"
    unfolding all_terminated_def list_all_length by blast
  show ?thesis
  proof (cases "\<exists>j < length (threads s). in_critical_section (?p j)")
    case True
    then obtain j where j: "j < length (threads s)" "in_critical_section (?p j)" by blast
    then have "\<exists>s'. book_ticket_step j 0 s = Some s'"
      using in_critical_section_enabled[OF j(2)] by (intro step_enabled) auto
    then show ?thesis by blast
  next
    case nocs: False
    show ?thesis
    proof (cases "\<exists>j < length (threads s). ?p j = At_mutex_lock")
      case True
      then obtain j where j: "j < length (threads s)" "?p j = At_mutex_lock" by blast
      then have k: "selected_show_index (threads s ! j) < length (shows_arr s)"
        using wf unfolding well_formed_def by auto
      have "mutex (shows_arr s ! selected_show_index (threads s ! j)) = None"
      proof (cases "mutex (shows_arr s ! selected_show_index (threads s ! j))")
        case None
        then show ?thesis .
      next
        case (Some owner)
        with mo k have "owner < length (threads s) \<and> in_critical_section (?p owner)"
          unfolding mutex_owned_def by blast
        with nocs show ?thesis by blast
      qed
      with j have "\<exists>s'. book_ticket_step j 0 s = Some s'"
        by (intro step_enabled) auto
      then show ?thesis by blast
    next
      case nolock: False
      show ?thesis
      proof (cases "\<exists>j < length (threads s). holds_permit (?p j)")
        case True
        then obtain j where j: "j < length (threads s)" "holds_permit (?p j)" by blast
        with nocs nolock have "\<exists>oc. ?p j = At_sem_post oc"
          by (cases "?p j") auto
        with j have "\<exists>s'. book_ticket_step j 0 s = Some s'"
          by (intro step_enabled) auto
        then show ?thesis by blast
      next
        case False
        then have "permits_held (threads s) = 0"
          by (intro permits_held_zero) (auto simp: in_set_conv_nth)
        with pcs have "0 < global_semaphore s"
          unfolding permits_conserved_def concurrent_limit_def by simp
        with i have "\<exists>s'. book_ticket_step i 0 s = Some s'"
          using nolock by (intro step_enabled) auto
        then show ?thesis by blast
      qed
    qed
  qed
qed

lemma run_can_complete:
  assumes "invariant s"
  shows "\<exists>sched s'. run sched s = Some s' \<and> all_terminated s'"
  using assms
proof (induction "work_left s" arbitrary: s rule: less_induct)
  case less
  show ?case
  proof (cases "all_terminated s")
    case True
    then have "run [] s = Some s \<and> all_terminated s" by simp
    then show ?thesis by blast
  next
    case False
    from no_deadlock[OF less.prems False] obtain i r s1
      where s1: "book_ticket_step i r s = Some s1" by blast
    from less.hyps[OF work_left_step[OF s1] invariant_step[OF s1 less.prems]]
    obtain sched s' where "run sched s1 = Some s'" "all_terminated s'" by blast
    with s1 have "run ((i, r) # sched) s = Some s' \<and> all_terminated s'" by simp
    then show ?thesis by blast
  qed
qed

lemma outcome_split:
  "list_all (\<lambda>t. terminated (pc t)) ts \<Longrightarrow>
     selected_for k ts = booked_for k ts + sold_out_for k ts"
proof (induction ts)
  case Nil
  then show ?case by (simp add: selected_for_def booked_for_def sold_out_for_def)
next
  case (Cons t ts)
  from Cons.prems obtain oc where "pc t = At_exit oc" by (cases "pc t") auto
  with Cons show ?case
    by (cases oc) (simp_all add: selected_for_def booked_for_def sold_out_for_def)
qed

lemma outcomes_total:
  "list_all (\<lambda>t. terminated (pc t)) ts \<Longrightarrow>
     booked_outcomes ts + sold_out_outcomes ts = length ts"
proof (induction ts)
  case Nil
  then show ?case by (simp add: booked_outcomes_def sold_out_outcomes_def)
next
  case (Cons t ts)
  from Cons.prems obtain oc where "pc t = At_exit oc" by (cases "pc t") auto
  with Cons show ?case
    by (cases oc) (simp_all add: booked_outcomes_def sold_out_outcomes_def)
qed

lemma sold_out_thread_exists:
  "0 < sold_out_for k ts \<Longrightarrow>
     \<exists>j < length ts. outcome_of (pc (ts ! j)) = Some Sold_out \<and> selected_show_index (ts ! j) = k"
proof -
  assume "0 < sold_out_for k ts"
  then have "filter (\<lambda>t. outcome_of (pc t) = Some Sold_out \<and> selected_show_index t = k) ts \<noteq> []"
    unfolding sold_out_for_def by simp
  then obtain t where "t \<in> set ts" "outcome_of (pc t) = Some Sold_out" "selected_show_index t = k"
    by (auto simp: filter_empty_conv)
  then show ?thesis by (auto simp: in_set_conv_nth)
qed

lemma final_booked_per_show:
  assumes inv: "invariant s" and fin: "all_terminated s" and k: "k < length (shows_arr s)"
  shows "initial_tickets (shows_arr s ! k) - available_tickets (shows_arr s ! k) =
           min (initial_tickets (shows_arr s ! k)) (int (selected_for k (threads s)))"
proof -
  from inv have tb: "tickets_bounded s" and ck: "checked_ok s" and ba: "bookings_accounted s"
    unfolding invariant_def by simp_all
  have acc: "initial_tickets (shows_arr s ! k) - available_tickets (shows_arr s ! k) =
      int (booked_for k (threads s))"
    using ba k unfolding bookings_accounted_def by blast
  have nonneg: "0 \<le> available_tickets (shows_arr s ! k)"
    using tb k unfolding tickets_bounded_def by blast
  have split: "selected_for k (threads s) =
      booked_for k (threads s) + sold_out_for k (threads s)"
    using fin unfolding all_terminated_def by (rule outcome_split)
  show ?thesis
  proof (cases "0 < sold_out_for k (threads s)")
    case True
    from sold_out_thread_exists[OF True] obtain j where j: "j < length (threads s)"
      "outcome_of (pc (threads s ! j)) = Some Sold_out" "selected_show_index (threads s ! j) = k"
      by blast
    with ck have "available_tickets (shows_arr s ! k) = 0"
      unfolding checked_ok_def by blast
    with acc split show ?thesis by simp
  next
    case False
    with acc split nonneg show ?thesis by simp
  qed
qed

lemma booked_outcomes_by_show:
  "(\<And>t. t \<in> set ts \<Longrightarrow> outcome_of (pc t) = Some Booked \<Longrightarrow> selected_show_index t < n) \<Longrightarrow>
     (\<Sum>k < n. booked_for k ts) = booked_outcomes ts"
proof (induction ts)
  case Nil
  then show ?case by (simp add: booked_for_def booked_outcomes_def)
next
  case (Cons t ts)
  have IH: "(\<Sum>k < n. booked_for k ts) = booked_outcomes ts"
    using Cons by simp
  have hd: "(\<Sum>k < n. (if outcome_of (pc t) = Some Booked \<and> selected_show_index t = k
                then 1 else 0 :: nat)) =
        (if outcome_of (pc t) = Some Booked then 1 else 0)"
  proof (cases "outcome_of (pc t) = Some Booked")
    case True
    then have "selected_show_index t < n" using Cons.prems by simp
    then have "(\<Sum>k < n. (if selected_show_index t = k then 1 else 0 :: nat)) = 1"
      by simp
    with True show ?thesis by simp
  next
    case False
    then show ?thesis by simp
  qed
  have "booked_for k (t # ts) =
      (if outcome_of (pc t) = Some Booked \<and> selected_show_index t = k then 1 else 0) +
      booked_for k ts" for k
    by (simp add: booked_for_def)
  then have "(\<Sum>k < n. booked_for k (t # ts)) =
      (\<Sum>k < n. (if outcome_of (pc t) = Some Booked \<and> selected_show_index t = k
                then 1 else 0)) + (\<Sum>k < n. booked_for k ts)"
    by (simp add: sum.distrib)
  with hd IH show ?case by (simp add: booked_outcomes_def)
qed

section \<open>Reachable states\<close>

lemma reachable_invariant:
  assumes "0 < total_shows" and "0 \<le> tickets_per_show"
    and "run sched (simulation_start created tickets_per_show total_shows) = Some s"
  shows "invariant s"
  using invariant_run[OF assms(3) invariant_start[OF assms(1,2)]] .

lemma reachable_shape:
  assumes "run sched (simulation_start created tickets_per_show total_shows) = Some s"
  shows "map initial_tickets (shows_arr s) = replicate total_shows tickets_per_show"
    and "length (shows_arr s) = total_shows"
    and "length (threads s) = length created"
proof -
  from capacity_run[OF assms]
  have m: "map initial_tickets (shows_arr s) =
      map initial_tickets (map (new_show tickets_per_show) [0..<total_shows])"
    and l: "length (threads s) = length created"
    by (simp_all add: simulation_start_def)
  have "map initial_tickets (map (new_show tickets_per_show) [0..<total_shows]) =
      replicate total_shows tickets_per_show"
    by (simp add: list_eq_iff_nth_eq new_show_def)
  with m show 1: "map initial_tickets (shows_arr s) = replicate total_shows tickets_per_show"
    by simp
  from arg_cong[OF 1, of length] show "length (shows_arr s) = total_shows" by simp
  from l show "length (threads s) = length created" .
qed

lemma reachable_capacity:
  assumes "run sched (simulation_start created tickets_per_show total_shows) = Some s"
    and "k < total_shows"
  shows "initial_tickets (shows_arr s ! k) = tickets_per_show"
proof -
  have "map initial_tickets (shows_arr s) ! k = replicate total_shows tickets_per_show ! k"
    using reachable_shape(1)[OF assms(1)] by simp
  with assms(2) reachable_shape(2)[OF assms(1)] show ?thesis by simp
qed

lemma reachable_extends_to_end:
  assumes "0 < total_shows" and "0 \<le> tickets_per_show"
    and "run sched (simulation_start created tickets_per_show total_shows) = Some s"
  shows "length sched \<le> 7 * length created \<and>
     (\<exists>sched' s'. run (sched @ sched') (simulation_start created tickets_per_show total_shows) =
        Some s' \<and> all_terminated s')"
proof -
  from run_length_bounded[OF assms(3)]
  have "length sched \<le> 7 * length created" by (simp add: work_left_start)
  moreover from run_can_complete[OF reachable_invariant[OF assms]]
  obtain sched' s' where "run sched' s = Some s'" "all_terminated s'" by blast
  then have "run (sched @ sched') (simulation_start created tickets_per_show total_shows) =
      Some s' \<and> all_terminated s'"
    using assms(3) by (simp add: run_append)
  ultimately show ?thesis by blast
qed

lemma run_contended_prefix:
  "run contended_prefix (simulation_start [0..<5] 1 1) = Some contended_state"
  by code_simp

lemma run_contended_section:
  "run contended_section contended_state = Some contended_unlocking"
  by code_simp

lemma run_contended_suffix:
  "run contended_suffix contended_unlocking = Some contended_final"
  by code_simp

lemma run_contended:
  "run (contended_prefix @ contended_section @ contended_suffix) (simulation_start [0..<5] 1 1) =
     Some contended_final"
  unfolding run_append run_contended_prefix
  using run_contended_section run_contended_suffix by simp

section \<open>The final report and the critical section\<close>

lemma display_final_status_fold:
  "fold (\<lambda>sh (a, b, c).
           (a + initial_tickets sh, b + available_tickets sh,
            c + (initial_tickets sh - available_tickets sh))) shs (a0, b0, c0) =
     (a0 + sum_list (map initial_tickets shs),
      b0 + sum_list (map available_tickets shs),
      c0 + sum_list (map (\<lambda>sh. initial_tickets sh - available_tickets sh) shs))"
  by (induction shs arbitrary: a0 b0 c0) simp_all

lemma total_booked_tickets_sum:
  "total_booked_tickets s =
     sum_list (map (\<lambda>sh. initial_tickets sh - available_tickets sh) (shows_arr s))"
  by (simp add: total_booked_tickets_def display_final_status_def display_final_status_fold)

lemma booked_sum_invariant:
  assumes "invariant s"
  shows "sum_list (map (\<lambda>sh. initial_tickets sh - available_tickets sh) (shows_arr s)) =
           int (booked_outcomes (threads s))"
proof -
  let ?n = "length (shows_arr s)"
  from assms have wf: "well_formed s" and ba: "bookings_accounted s"
    unfolding invariant_def by simp_all
  have "sum_list (map (\<lambda>sh. initial_tickets sh - available_tickets sh) (shows_arr s)) =
      (\<Sum>k < ?n. initial_tickets (shows_arr s ! k) - available_tickets (shows_arr s ! k))"
    by (simp add: sum_list_sum_nth atLeast0LessThan)
  also have "\<dots> = (\<Sum>k < ?n. int (booked_for k (threads s)))"
    using ba unfolding bookings_accounted_def by simp
  also have "\<dots> = int (\<Sum>k < ?n. booked_for k (threads s))"
    by simp
  also have "(\<Sum>k < ?n. booked_for k (threads s)) = booked_outcomes (threads s)"
  proof (rule booked_outcomes_by_show)
    fix t assume "t \<in> set (threads s)" and b: "outcome_of (pc t) = Some Booked"
    then obtain i where "i < length (threads s)" "t = threads s ! i"
      by (auto simp: in_set_conv_nth)
    moreover from b have "pc t \<noteq> At_select" by auto
    ultimately show "selected_show_index t < ?n"
      using wf unfolding well_formed_def by blast
  qed
  finally show ?thesis .
qed

lemma progress_outside:
  assumes "\<not> in_critical_section (pc (threads s ! i))"
  shows "critical_section_progress sh0 i s"
  using assms unfolding critical_section_progress_def Let_def
  by (cases "pc (threads s ! i)") simp_all

lemma other_thread_step:
  assumes step: "book_ticket_step j r s = Some s'" and ji: "j \<noteq> i"
    and inv: "invariant s" and i: "i < length (threads s)"
    and cs: "in_critical_section (pc (threads s ! i))"
  shows "threads s' ! i = threads s ! i"
    and "shows_arr s' ! selected_show_index (threads s ! i) =
         shows_arr s ! selected_show_index (threads s ! i)"
proof -
  let ?k = "selected_show_index (threads s ! i)"
  from inv have mo: "mutex_owned s" and wf: "well_formed s"
    unfolding invariant_def by simp_all
  have own: "mutex (shows_arr s ! ?k) = Some i"
    using mo i cs unfolding mutex_owned_def by blast
  have other: "selected_show_index (threads s ! j) \<noteq> ?k"
    if "j < length (threads s)" "in_critical_section (pc (threads s ! j))"
  proof
    assume "selected_show_index (threads s ! j) = ?k"
    moreover have "mutex (shows_arr s ! selected_show_index (threads s ! j)) = Some j"
      using mo that unfolding mutex_owned_def by blast
    ultimately show False using own ji by simp
  qed
  from step show "threads s' ! i = threads s ! i"
    using ji by (cases rule: step_cases) simp_all
  from step show "shows_arr s' ! ?k = shows_arr s ! ?k"
  proof (cases rule: step_cases)
    case mutex_lock
    with own have "selected_show_index (threads s ! j) \<noteq> ?k" by auto
    with mutex_lock show ?thesis by simp
  next
    case decrement
    with other have "selected_show_index (threads s ! j) \<noteq> ?k" by simp
    with decrement show ?thesis by simp
  next
    case (mutex_unlock oc)
    with other have "selected_show_index (threads s ! j) \<noteq> ?k" by simp
    with mutex_unlock show ?thesis by simp
  qed simp_all
qed

lemma progress_step:
  assumes step: "book_ticket_step j r s = Some s'"
    and inv: "invariant s" and i: "i < length (threads s)"
    and past: "steps_left (pc (threads s ! i)) \<le> 4"
    and prog: "critical_section_progress sh0 i s"
  shows "critical_section_progress sh0 i s' \<and> steps_left (pc (threads s' ! i)) \<le> 4 \<and>
         selected_show_index (threads s' ! i) = selected_show_index (threads s ! i)"
proof (cases "j = i")
  case False
  show ?thesis
  proof (cases "in_critical_section (pc (threads s ! i))")
    case True
    note same = other_thread_step[OF step False inv i True]
    have "critical_section_progress sh0 i s' = critical_section_progress sh0 i s"
      unfolding critical_section_progress_def Let_def same(1) same(2) ..
    with prog past same(1) show ?thesis by simp
  next
    case nocs: False
    have same: "threads s' ! i = threads s ! i"
      using step False by (cases rule: step_cases) simp_all
    with nocs have "\<not> in_critical_section (pc (threads s' ! i))" by simp
    from progress_outside[OF this] same past show ?thesis by simp
  qed
next
  case True
  let ?k = "selected_show_index (threads s ! i)"
  from inv have wf: "well_formed s" unfolding invariant_def by simp
  from step[unfolded True] show ?thesis
  proof (cases rule: step_cases)
    case select
    with past show ?thesis by simp
  next
    case sem_wait
    with past show ?thesis by simp
  next
    case mutex_lock
    with past show ?thesis by simp
  next
    case check
    with prog show ?thesis
      unfolding critical_section_progress_def Let_def critical_section_def by simp
  next
    case decrement
    then have "?k < length (shows_arr s)"
      using wf unfolding well_formed_def by auto
    with decrement prog show ?thesis
      unfolding critical_section_progress_def Let_def critical_section_def by simp
  next
    case (mutex_unlock oc)
    then show ?thesis
      unfolding critical_section_progress_def Let_def by simp
  next
    case (sem_post oc)
    then show ?thesis
      unfolding critical_section_progress_def Let_def by simp
  qed
qed

lemma progress_run:
  assumes "run sched s = Some s'"
    and "invariant s" and "i < length (threads s)"
    and "steps_left (pc (threads s ! i)) \<le> 4"
    and "critical_section_progress sh0 i s"
  shows "critical_section_progress sh0 i s' \<and>
         selected_show_index (threads s' ! i) = selected_show_index (threads s ! i)"
  using assms
proof (induction sched arbitrary: s)
  case Nil
  then show ?case by simp
next
  case (Cons a sched)
  obtain j r where a: "a = (j, r)" by (cases a)
  from Cons.prems(1) a obtain s1 where s1: "book_ticket_step j r s = Some s1"
    and rest: "run sched s1 = Some s'"
    by (auto split: option.splits)
  from progress_step[OF s1 Cons.prems(2,3,4,5)]
  have p1: "critical_section_progress sh0 i s1" "steps_left (pc (threads s1 ! i)) \<le> 4"
    "selected_show_index (threads s1 ! i) = selected_show_index (threads s ! i)"
    by simp_all
  have l1: "i < length (threads s1)"
    using capacity_step(3)[OF s1] Cons.prems(3) by simp
  from Cons.IH[OF rest invariant_step[OF s1 Cons.prems(2)] l1 p1(2) p1(1)] p1(3)
  show ?case by simp
qed

lemma critical_section_atomic:
  assumes inv: "invariant s" and i: "i < length (threads s)"
    and chk: "pc (threads s ! i) = At_check"
    and run: "run sched s = Some s'"
    and unl: "pc (threads s' ! i) = At_mutex_unlock oc"
  shows "(shows_arr s' ! selected_show_index (threads s ! i), oc) =
           critical_section (shows_arr s ! selected_show_index (threads s ! i))"
proof -
  let ?sh0 = "shows_arr s ! selected_show_index (threads s ! i)"
  have "critical_section_progress ?sh0 i s"
    using chk unfolding critical_section_progress_def Let_def by simp
  from progress_run[OF run inv i _ this] chk
  have "critical_section_progress ?sh0 i s'"
    and "selected_show_index (threads s' ! i) = selected_show_index (threads s ! i)"
    by simp_all
  with unl show ?thesis
    unfolding critical_section_progress_def Let_def by simp
qed

lemma only_decrement_writes:
  assumes "book_ticket_step j r s = Some s'" and "pc (threads s ! j) \<noteq> At_decrement"
  shows "map available_tickets (shows_arr s') = map available_tickets (shows_arr s)"
  using assms by (cases rule: step_cases) (simp_all add: map_update_same_field)

lemma critical_section_runs:
  assumes i: "i < length (threads s)" and c: "pc (threads s ! i) = At_check"
  shows "0 < available_tickets (shows_arr s ! selected_show_index (threads s ! i)) \<Longrightarrow>
      \<exists>s'. run [(i, r), (i, r')] s = Some s' \<and>
           pc (threads s' ! i) = At_mutex_unlock Booked \<and>
           shows_arr s' = (shows_arr s)[selected_show_index (threads s ! i) :=
             (shows_arr s ! selected_show_index (threads s ! i))
               \<lparr>available_tickets :=
                  available_tickets (shows_arr s ! selected_show_index (threads s ! i)) - 1\<rparr>]"
    and "\<not> 0 < available_tickets (shows_arr s ! selected_show_index (threads s ! i)) \<Longrightarrow>
      \<exists>s'. run [(i, r)] s = Some s' \<and>
           pc (threads s' ! i) = At_mutex_unlock Sold_out \<and> shows_arr s' = shows_arr s"
  using i c by (simp_all add: book_ticket_step_def Let_def)

lemma critical_section_never_blocks:
  assumes "i < length (threads s)" and "in_critical_section (pc (threads s ! i))"
  shows "\<exists>s'. book_ticket_step i r s = Some s'"
  using assms in_critical_section_enabled[OF assms(2)] by (intro step_enabled) auto

lemma release_runs:
  assumes i: "i < length (threads s)"
  shows "pc (threads s ! i) = At_mutex_unlock oc \<Longrightarrow>
      \<exists>s'. run [(i, r), (i, r')] s = Some s' \<and> pc (threads s' ! i) = At_exit oc \<and>
           global_semaphore s' = global_semaphore s + 1"
    and "pc (threads s ! i) = At_sem_post oc \<Longrightarrow>
      \<exists>s'. book_ticket_step i r s = Some s' \<and> pc (threads s' ! i) = At_exit oc \<and>
           global_semaphore s' = global_semaphore s + 1"
  using i by (simp_all add: book_ticket_step_def Let_def)

section \<open>Semaphore calls and final states\<close>

lemma permit_calls_step:
  assumes step: "book_ticket_step j r s = Some s'" and i: "i < length (threads s)"
  shows "(if past_sem_wait (pc (threads s' ! i)) then 1 else 0 :: nat) =
           (if past_sem_wait (pc (threads s ! i)) then 1 else 0) +
           (if j = i \<and> pc (threads s ! i) = At_sem_wait then 1 else 0)"
    and "(if terminated (pc (threads s' ! i)) then 1 else 0 :: nat) =
           (if terminated (pc (threads s ! i)) then 1 else 0) +
           (if j = i \<and> at_sem_post (pc (threads s ! i)) then 1 else 0)"
  using step i
  by (cases rule: step_cases; cases "j = i"; simp)+

lemma permit_calls_run:
  assumes "run sched s = Some s'" and "i < length (threads s)"
    and "permit_calls i sched s = (waits, posts)"
  shows "(if past_sem_wait (pc (threads s ! i)) then 1 else 0) + waits =
           (if past_sem_wait (pc (threads s' ! i)) then 1 else 0) \<and>
         (if terminated (pc (threads s ! i)) then 1 else 0) + posts =
           (if terminated (pc (threads s' ! i)) then 1 else 0)"
  using assms
proof (induction sched arbitrary: s waits posts)
  case Nil
  then show ?case by simp
next
  case (Cons a sched)
  obtain j r where a: "a = (j, r)" by (cases a)
  from Cons.prems(1) a obtain s1 where s1: "book_ticket_step j r s = Some s1"
    and rest: "run sched s1 = Some s'"
    by (auto split: option.splits)
  obtain w1 p1 where c1: "permit_calls i sched s1 = (w1, p1)"
    by (cases "permit_calls i sched s1")
  have l1: "i < length (threads s1)"
    using capacity_step(3)[OF s1] Cons.prems(2) by simp
  from Cons.prems(3) a s1 c1
  have w: "waits = w1 + (if j = i \<and> pc (threads s ! i) = At_sem_wait then 1 else 0)"
    and p: "posts = p1 + (if j = i \<and> at_sem_post (pc (threads s ! i)) then 1 else 0)"
    by simp_all
  from Cons.IH[OF rest l1 c1] permit_calls_step[OF s1 Cons.prems(2)] w p
  show ?case by simp
qed

lemma holds_permit_iff:
  "holds_permit p \<longleftrightarrow> past_sem_wait p \<and> \<not> terminated p"
  by (cases p) simp_all

lemma selected_by_show:
  "(\<And>t. t \<in> set ts \<Longrightarrow> selected_show_index t < n) \<Longrightarrow>
     (\<Sum>k < n. selected_for k ts) = length ts"
proof (induction ts)
  case Nil
  then show ?case by (simp add: selected_for_def)
next
  case (Cons t ts)
  have IH: "(\<Sum>k < n. selected_for k ts) = length ts"
    using Cons by simp
  have "selected_show_index t < n" using Cons.prems by simp
  then have hd: "(\<Sum>k < n. (if selected_show_index t = k then 1 else 0 :: nat)) = 1"
    by simp
  have "selected_for k (t # ts) =
      (if selected_show_index t = k then 1 else 0) + selected_for k ts" for k
    by (simp add: selected_for_def)
  then have "(\<Sum>k < n. selected_for k (t # ts)) =
      (\<Sum>k < n. (if selected_show_index t = k then 1 else 0)) + (\<Sum>k < n. selected_for k ts)"
    by (simp add: sum.distrib)
  with hd IH show ?case by simp
qed

lemma terminated_selected_in_range:
  assumes inv: "invariant s" and fin: "all_terminated s" and t: "t \<in> set (threads s)"
  shows "selected_show_index t < length (shows_arr s)"
proof -
  from t obtain i where i: "i < length (threads s)" "t = threads s ! i"
    by (auto simp: in_set_conv_nth)
  from fin t have "terminated (pc t)"
    unfolding all_terminated_def by (simp add: list_all_iff)
  then have "pc t \<noteq> At_select" by auto
  with inv i show ?thesis unfolding invariant_def well_formed_def by blast
qed

lemma final_selected_total:
  assumes "invariant s" and "all_terminated s"
  shows "(\<Sum>k < length (shows_arr s). selected_for k (threads s)) = length (threads s)"
  using terminated_selected_in_range[OF assms] by (rule selected_by_show)

lemma final_booked_total:
  assumes inv: "invariant s" and fin: "all_terminated s"
  shows "int (booked_outcomes (threads s)) =
     (\<Sum>k < length (shows_arr s).
        min (initial_tickets (shows_arr s ! k)) (int (selected_for k (threads s))))"
proof -
  have "int (booked_outcomes (threads s)) =
      sum_list (map (\<lambda>sh. initial_tickets sh - available_tickets sh) (shows_arr s))"
    using booked_sum_invariant[OF inv] by simp
  also have "\<dots> = (\<Sum>k < length (shows_arr s).
      initial_tickets (shows_arr s ! k) - available_tickets (shows_arr s ! k))"
    by (simp add: sum_list_sum_nth atLeast0LessThan)
  also have "\<dots> = (\<Sum>k < length (shows_arr s).
      min (initial_tickets (shows_arr s ! k)) (int (selected_for k (threads s))))"
    using final_booked_per_show[OF inv fin] by simp
  finally show ?thesis .
qed

lemma run_all_first_show:
  "run all_first_show (simulation_start [0..<100] 2 3) = Some all_first_show_final"
  by code_simp

lemma all_first_show_final_facts:
  "all_terminated all_first_show_final"
  "booked_outcomes (threads all_first_show_final) = 2"
  "selected_for 0 (threads all_first_show_final) = 100"
  "selected_for 1 (threads all_first_show_final) = 0"
  "selected_for 2 (threads all_first_show_final) = 0"
  by code_simp+

section \<open>Set-up, joins and the command line\<close>

lemma initialize_shows_loop_ok:
  "list_all init_ok idxs \<Longrightarrow>
     initialize_shows_loop init_ok t idxs built =
       (map Mutex_init idxs, Some (built @ map (new_show t) idxs))"
  by (induction idxs arbitrary: built) simp_all

lemma initialize_shows_loop_fails:
  "list_all init_ok before \<Longrightarrow> \<not> init_ok i \<Longrightarrow>
     initialize_shows_loop init_ok t (before @ i # rest) built =
       (map Mutex_init before @ Mutex_init_failed i # map Mutex_destroy [0..<i] @ [Shows_free],
        None)"
  by (induction before arbitrary: built) simp_all

lemma initialize_shows_loop_not_all:
  "initialize_shows_loop init_ok t idxs built = (ev, res) \<Longrightarrow> \<not> list_all init_ok idxs \<Longrightarrow>
     res = None"
proof (induction idxs arbitrary: built ev res)
  case Nil
  then show ?case by simp
next
  case (Cons i idxs)
  show ?case
  proof (cases "init_ok i")
    case False
    with Cons.prems show ?thesis by simp
  next
    case True
    obtain ev1 res1 where r: "initialize_shows_loop init_ok t idxs (built @ [new_show t i]) =
        (ev1, res1)"
      by (cases "initialize_shows_loop init_ok t idxs (built @ [new_show t i])")
    from Cons.prems True have "\<not> list_all init_ok idxs" by simp
    from Cons.IH[OF r this] Cons.prems(1) True r show ?thesis by simp
  qed
qed

lemma initialize_shows_loop_no_thread:
  "initialize_shows_loop init_ok t idxs built = (ev, res) \<Longrightarrow> Thread_create j \<notin> set ev"
proof (induction idxs arbitrary: built ev res)
  case Nil
  then show ?case by simp
next
  case (Cons i idxs)
  show ?case
  proof (cases "init_ok i")
    case False
    with Cons.prems show ?thesis by auto
  next
    case True
    obtain ev1 res1 where r: "initialize_shows_loop init_ok t idxs (built @ [new_show t i]) =
        (ev1, res1)"
      by (cases "initialize_shows_loop init_ok t idxs (built @ [new_show t i])")
    from Cons.IH[OF r] Cons.prems True r show ?thesis by auto
  qed
qed

lemma initialize_shows_no_thread:
  "initialize_shows e n t = (ev, res) \<Longrightarrow> Thread_create j \<notin> set ev"
proof (cases "shows_malloc_ok e")
  case False
  assume "initialize_shows e n t = (ev, res)"
  with False show ?thesis by (auto simp: initialize_shows_def)
next
  case True
  assume i: "initialize_shows e n t = (ev, res)"
  obtain ev1 res1 where r: "initialize_shows_loop (mutex_init_ok e) t [0..<n] [] = (ev1, res1)"
    by (cases "initialize_shows_loop (mutex_init_ok e) t [0..<n] []")
  from initialize_shows_loop_no_thread[OF r, of j] i True r show ?thesis
    by (auto simp: initialize_shows_def)
qed

lemma initialize_shows_ok:
  assumes "shows_malloc_ok e" and "list_all (mutex_init_ok e) [0..<n]"
  shows "initialize_shows e n t =
     (Shows_malloc n # map Mutex_init [0..<n], Some (map (new_show t) [0..<n]))"
  using assms by (simp add: initialize_shows_def initialize_shows_loop_ok)

lemma initialize_shows_mutex_fails:
  assumes "shows_malloc_ok e" and "i < n" and "list_all (mutex_init_ok e) [0..<i]"
    and "\<not> mutex_init_ok e i"
  shows "initialize_shows e n t =
     (Shows_malloc n # map Mutex_init [0..<i] @ Mutex_init_failed i #
        map Mutex_destroy [0..<i] @ [Shows_free], None)"
proof -
  from assms(2) have "[0..<n] = [0..<i] @ i # [Suc i..<n]"
    by (metis less_imp_le_nat upt_add_eq_append upt_conv_Cons le0 le_add_diff_inverse plus_nat.add_0)
  with assms(1) initialize_shows_loop_fails[OF assms(3,4), of t "[Suc i..<n]" "[]"]
  show ?thesis by (simp add: initialize_shows_def)
qed

lemma initialize_shows_fails:
  assumes "initialize_shows e n t = (ev, res)"
    and "\<not> shows_malloc_ok e \<or> \<not> list_all (mutex_init_ok e) [0..<n]"
  shows "res = None"
proof (cases "shows_malloc_ok e")
  case False
  with assms(1) show ?thesis by (simp add: initialize_shows_def)
next
  case True
  with assms(2) have na: "\<not> list_all (mutex_init_ok e) [0..<n]" by simp
  obtain ev1 res1 where r: "initialize_shows_loop (mutex_init_ok e) t [0..<n] [] = (ev1, res1)"
    by (cases "initialize_shows_loop (mutex_init_ok e) t [0..<n] []")
  from initialize_shows_loop_not_all[OF r na] assms(1) True r show ?thesis
    by (simp add: initialize_shows_def)
qed

lemma create_threads_all_ok:
  assumes "list_all (\<lambda>i. user_data_malloc_ok e i \<and> pthread_create_ok e i) [a..<u]"
    and "length created = a" and "a \<le> u"
  shows "create_threads e [a..<u] (map Some [0..<a] @ replicate (u - a) None) created =
     (map Thread_create [a..<u], map Some [0..<u], created @ [a..<u])"
  using assms
proof (induction "u - a" arbitrary: a created)
  case 0
  then show ?case by simp
next
  case (Suc d)
  then have lt: "a < u" by simp
  then have upt: "[a..<u] = a # [Suc a..<u]" by (simp add: upt_conv_Cons)
  from lt obtain m where m: "u - a = Suc m" by (cases "u - a") simp_all
  have slots: "(map Some [0..<a] @ replicate (u - a) None)[a := Some (length created)] =
      map Some [0..<Suc a] @ replicate (u - Suc a) None"
    using Suc.prems(2) m by (simp add: list_update_append)
  have ok: "user_data_malloc_ok e a" "pthread_create_ok e a"
    "list_all (\<lambda>i. user_data_malloc_ok e i \<and> pthread_create_ok e i) [Suc a..<u]"
    using Suc.prems(1) upt by simp_all
  have "create_threads e [Suc a..<u] (map Some [0..<Suc a] @ replicate (u - Suc a) None)
      (created @ [a]) =
      (map Thread_create [Suc a..<u], map Some [0..<u], (created @ [a]) @ [Suc a..<u])"
    using Suc.hyps(2) Suc.prems(2) lt ok(3)
    by (intro Suc.hyps(1)) simp_all
  with ok(1,2) slots show ?case
    by (simp add: upt del: upt_Suc)
qed

lemma join_threads_all_terminated:
  assumes "list_all (\<lambda>w. w < length (threads s) \<and> terminated (pc (threads s ! w))) ws"
  shows "join_threads (map Some ws) i s = (map Thread_join [i..<i + length ws], Joined)"
  using assms
proof (induction ws arbitrary: i)
  case Nil
  then show ?case by simp
next
  case (Cons w ws)
  then have "join_threads (map Some ws) (i + 1) s =
      (map Thread_join [i + 1..<i + 1 + length ws], Joined)"
    by simp
  with Cons.prems show ?case by (simp add: upt_rec[of i] del: upt_Suc)
qed

lemma all_terminated_nth:
  "all_terminated s \<Longrightarrow> w < length (threads s) \<Longrightarrow> terminated (pc (threads s ! w))"
  unfolding all_terminated_def by (simp add: list_all_length)

lemma run_simulation_all_spawned:
  assumes sp: "all_spawned e u"
    and r: "run sched (simulation_start [0..<u] t n) = Some s" and fin: "all_terminated s"
  shows "\<exists>a b c. run_simulation e u n (map (new_show t) [0..<n]) sched =
     Some (map Thread_create [0..<u] @ map Thread_join [0..<u] @
           [Final_report a b c, Threads_free] @ cleanup_resources n, Exit 0)"
proof -
  have ct: "create_threads e [0..<u] (replicate u None) [] =
      (map Thread_create [0..<u], map Some [0..<u], [0..<u])"
    using create_threads_all_ok[of e 0 u "[]"] sp unfolding all_spawned_def by simp
  have len: "length (threads s) = u"
    using reachable_shape(3)[OF r] by simp
  have "list_all (\<lambda>w. w < length (threads s) \<and> terminated (pc (threads s ! w))) [0..<u]"
    using all_terminated_nth[OF fin] len by (simp add: list_all_iff)
  from join_threads_all_terminated[OF this, of 0]
  have jt: "join_threads (map Some [0..<u]) 0 s = (map Thread_join [0..<u], Joined)"
    by simp
  obtain a b c where d: "display_final_status s = (a, b, c)"
    by (cases "display_final_status s") auto
  from r have r': "run sched \<lparr>shows_arr = map (new_show t) [0..<n],
      global_semaphore = concurrent_limit, threads = map (new_thread n) [0..<u]\<rparr> = Some s"
    by (simp add: simulation_start_def)
  show ?thesis
    unfolding run_simulation_def ct using r' jt d by simp
qed

lemma run_simulation_exit:
  "run_simulation e u n shs sched = Some (ev, Exit c) \<Longrightarrow> c = 0"
  unfolding run_simulation_def
  by (auto split: prod.splits option.splits join_result.splits)

lemma main_wrong_argc:
  "length argv \<noteq> 4 \<Longrightarrow> main e argv sched = Some ([], Exit 1)"
  by (simp add: main_def parse_arguments_def EXIT_FAILURE_def)

lemma parse_arguments_values:
  assumes "length argv = 4" and "atoi (argv ! 1) = Some u" and "atoi (argv ! 2) = Some t"
    and "atoi (argv ! 3) = Some n"
  shows "parse_arguments argv =
     (if u \<le> 0 \<or> t \<le> 0 \<or> n \<le> 0 then Inl (Exit 1) else Inr (u, t, n))"
  using assms by (simp add: parse_arguments_def EXIT_FAILURE_def)

lemma main_resource_failure:
  assumes p: "parse_arguments argv = Inr (u, t, n)" and f: "resource_init_fails e (nat n)"
  shows "\<exists>ev. main e argv sched = Some (ev, Exit 1) \<and> (\<forall>j. Thread_create j \<notin> set ev)"
proof (cases "sem_init_ok e")
  case False
  with p show ?thesis by (simp add: main_def EXIT_FAILURE_def)
next
  case sem: True
  obtain ev res where i: "initialize_shows e (nat n) t = (ev, res)"
    by (cases "initialize_shows e (nat n) t")
  have nt: "Thread_create j \<notin> set ev" for j
    using initialize_shows_no_thread[OF i] .
  show ?thesis
  proof (cases res)
    case None
    with p sem i nt show ?thesis by (simp add: main_def EXIT_FAILURE_def)
  next
    case (Some shs)
    with initialize_shows_fails[OF i]
    have "shows_malloc_ok e" "list_all (mutex_init_ok e) [0..<nat n]" by auto
    with f sem have "\<not> threads_malloc_ok e" unfolding resource_init_fails_def by simp
    with p sem i Some nt show ?thesis
      by (auto simp: main_def EXIT_FAILURE_def cleanup_resources_def)
  qed
qed

lemma main_after_setup:
  assumes p: "parse_arguments argv = Inr (u, t, n)" and f: "\<not> resource_init_fails e (nat n)"
  shows "main e argv sched =
     (case run_simulation e (nat u) (nat n) (map (new_show t) [0..<nat n]) sched of
        None \<Rightarrow> None
      | Some (ev, r) \<Rightarrow>
          Some (Sem_init concurrent_limit # (Shows_malloc (nat n) # map Mutex_init [0..<nat n]) @
                [Threads_malloc (nat u)] @ ev, r))"
proof -
  from f have ok: "sem_init_ok e" "shows_malloc_ok e" "list_all (mutex_init_ok e) [0..<nat n]"
    "threads_malloc_ok e"
    unfolding resource_init_fails_def by simp_all
  show ?thesis
    unfolding main_def p using ok by (simp add: initialize_shows_ok)
qed

lemma join_threads_joined:
  "join_threads slots i s = (ev, Joined) \<Longrightarrow>
     (\<forall>x \<in> set slots. \<exists>w. x = Some w \<and> terminated (pc (threads s ! w))) \<and>
     ev = map Thread_join [i..<i + length slots]"
proof (induction slots arbitrary: i ev)
  case Nil
  then show ?case by simp
next
  case (Cons x slots)
  show ?case
  proof (cases x)
    case None
    with Cons.prems show ?thesis by simp
  next
    case (Some w)
    obtain ev1 res1 where r: "join_threads slots (i + 1) s = (ev1, res1)"
      by (cases "join_threads slots (i + 1) s")
    from Cons.prems Some r have t: "terminated (pc (threads s ! w))"
      and e: "ev = Thread_join i # ev1" and j: "res1 = Joined"
      by (auto split: if_splits)
    from Cons.IH[OF r[unfolded j]] t e Some show ?thesis
      by (simp add: upt_rec[of i] del: upt_Suc)
  qed
qed

lemma create_threads_slots:
  assumes "create_threads e idxs slots created = (ev, slots', created')"
    and "distinct idxs" and "\<forall>i \<in> set idxs. slots ! i = None"
  shows "length slots' = length slots \<and>
     (\<forall>i \<in> set idxs. \<not> (user_data_malloc_ok e i \<and> pthread_create_ok e i) \<longrightarrow>
        slots' ! i = None) \<and>
     (\<forall>i. i \<notin> set idxs \<longrightarrow> slots' ! i = slots ! i)"
  using assms
proof (induction idxs arbitrary: slots created ev)
  case Nil
  then show ?case by simp
next
  case (Cons i idxs)
  from Cons.prems(2) have d: "distinct idxs" and ni: "i \<notin> set idxs" by simp_all
  show ?case
  proof (cases "user_data_malloc_ok e i \<and> pthread_create_ok e i")
    case False
    obtain ev1 where r: "create_threads e idxs slots created = (ev1, slots', created')"
      using Cons.prems(1) False by (auto split: prod.splits if_splits)
    from Cons.prems(3) have "\<forall>j \<in> set idxs. slots ! j = None" by simp
    from Cons.IH[OF r d this] ni False Cons.prems(3) show ?thesis by auto
  next
    case True
    let ?slots1 = "slots[i := Some (length created)]"
    obtain ev1 where r: "create_threads e idxs ?slots1 (created @ [i]) =
        (ev1, slots', created')"
      using Cons.prems(1) True by (auto split: prod.splits)
    have "?slots1 ! j = slots ! j" if "j \<in> set idxs" for j
      using that ni by (intro nth_list_update_neq) auto
    with Cons.prems(3) have "\<forall>j \<in> set idxs. ?slots1 ! j = None" by simp
    from Cons.IH[OF r d this] True show ?thesis by auto
  qed
qed

lemma run_simulation_exit_only_after:
  assumes rs: "run_simulation e u n (map (new_show t) [0..<n]) sched = Some (ev, Exit c)"
  shows "all_spawned e u \<and>
     (\<exists>s. run sched (simulation_start [0..<u] t n) = Some s \<and> all_terminated s) \<and>
     (\<exists>after. ev = map Thread_create [0..<u] @ map Thread_join [0..<u] @ after)"
proof -
  obtain ev_c slots created where
    ct: "create_threads e [0..<u] (replicate u None) [] = (ev_c, slots, created)"
    by (cases "create_threads e [0..<u] (replicate u None) []") auto
  from rs obtain s ev_j where
    r: "run sched \<lparr>shows_arr = map (new_show t) [0..<n], global_semaphore = concurrent_limit,
          threads = map (new_thread n) created\<rparr> = Some s"
    and j: "join_threads slots 0 s = (ev_j, Joined)"
    unfolding run_simulation_def ct
    by (auto split: option.splits prod.splits join_result.splits)
  have "\<forall>i \<in> set [0..<u]. replicate u None ! i = (None :: nat option)" by simp
  from create_threads_slots[OF ct distinct_upt this]
  have len: "length slots = u"
    and failed: "\<And>i. i < u \<Longrightarrow> \<not> (user_data_malloc_ok e i \<and> pthread_create_ok e i) \<Longrightarrow>
      slots ! i = None"
    by simp_all
  from join_threads_joined[OF j]
  have some: "\<And>x. x \<in> set slots \<Longrightarrow> \<exists>w. x = Some w \<and> terminated (pc (threads s ! w))"
    by blast
  have ok: "user_data_malloc_ok e i \<and> pthread_create_ok e i" if "i < u" for i
  proof (rule ccontr)
    assume "\<not> (user_data_malloc_ok e i \<and> pthread_create_ok e i)"
    from failed[OF that this] that len have "None \<in> set slots"
      by (metis nth_mem)
    with some show False by blast
  qed
  then have sp: "all_spawned e u"
    unfolding all_spawned_def by (simp add: list_all_iff)
  have ct': "create_threads e [0..<u] (replicate u None) [] =
      (map Thread_create [0..<u], map Some [0..<u], [0..<u])"
    using create_threads_all_ok[of e 0 u "[]"] sp unfolding all_spawned_def by simp
  have "(ev_c, slots, created) = (map Thread_create [0..<u], map Some [0..<u], [0..<u])"
    unfolding ct[symmetric] by (rule ct')
  then have sl: "slots = map Some [0..<u]" and cr: "created = [0..<u]" by blast+
  from r cr have r': "run sched (simulation_start [0..<u] t n) = Some s"
    by (simp add: simulation_start_def)
  have lt: "length (threads s) = u"
    using reachable_shape(3)[OF r'] by simp
  have "terminated (pc (threads s ! w))" if "w < u" for w
  proof -
    from that have "Some w \<in> set slots" unfolding sl by simp
    from some[OF this] show ?thesis by simp
  qed
  with lt have fin: "all_terminated s"
    unfolding all_terminated_def by (simp add: list_all_length)
  from run_simulation_all_spawned[OF sp r' fin] rs
  have "\<exists>after. ev = map Thread_create [0..<u] @ map Thread_join [0..<u] @ after"
    by auto
  with sp r' fin show ?thesis by blast
qed

lemma main_exit_only_after:
  assumes p: "parse_arguments argv = Inr (u, t, n)" and nf: "\<not> resource_init_fails e (nat n)"
    and m: "main e argv sched = Some (ev, Exit c)"
  shows "c = 0 \<and> all_spawned e (nat u) \<and>
     (\<exists>s. run sched (simulation_start [0..<nat u] t (nat n)) = Some s \<and> all_terminated s) \<and>
     (\<exists>before after. ev = before @ map Thread_join [0..<nat u] @ after)"
proof -
  from m obtain ev' where
    rs: "run_simulation e (nat u) (nat n) (map (new_show t) [0..<nat n]) sched =
           Some (ev', Exit c)"
    and ev: "ev = Sem_init concurrent_limit # (Shows_malloc (nat n) #
           map Mutex_init [0..<nat n]) @ [Threads_malloc (nat u)] @ ev'"
    unfolding main_after_setup[OF p nf] by (auto split: option.splits prod.splits)
  from run_simulation_exit_only_after[OF rs] obtain after where
    sp: "all_spawned e (nat u)"
    and r: "\<exists>s. run sched (simulation_start [0..<nat u] t (nat n)) = Some s \<and> all_terminated s"
    and e: "ev' = map Thread_create [0..<nat u] @ map Thread_join [0..<nat u] @ after"
    by blast
  have "ev = (Sem_init concurrent_limit # (Shows_malloc (nat n) #
           map Mutex_init [0..<nat n]) @ [Threads_malloc (nat u)] @
           map Thread_create [0..<nat u]) @ map Thread_join [0..<nat u] @ after"
    unfolding ev e by simp
  with run_simulation_exit[OF rs] sp r show ?thesis by blast
qed

lemma isdigit_not_skipped:
  "isdigit c \<Longrightarrow> \<not> isspace c \<and> c \<noteq> CHR ''-'' \<and> c \<noteq> CHR ''+''"
  by (auto simp: isdigit_def isspace_def)

lemma atoi_digits_stop:
  "takeWhile isdigit s = [] \<Longrightarrow> atoi_digits acc s = acc"
  by (cases s) (auto split: if_splits)

lemma atoi_digits_append:
  "list_all isdigit ds \<Longrightarrow>
     atoi_digits acc (ds @ rest) =
       atoi_digits (foldl (\<lambda>a c. 10 * a + digit_value c) acc ds) rest"
  by (induction ds arbitrary: acc) simp_all

lemma atoi_no_digits:
  assumes "takeWhile isdigit (skip_sign (dropWhile isspace a)) = []"
  shows "atoi a = Some 0"
proof -
  let ?s = "dropWhile isspace a"
  have "atoi_digits 0 (skip_sign ?s) = 0"
    using assms by (rule atoi_digits_stop)
  then show ?thesis
    by (simp add: atoi_def Let_def INT_MIN_def INT_MAX_def)
qed

lemma set_skip_sign:
  "set (skip_sign s) \<subseteq> set s"
  by (cases s) (auto simp: skip_sign_def)

lemma atoi_non_numeric:
  assumes "list_all (\<lambda>c. \<not> isdigit c) a"
  shows "atoi a = Some 0"
proof (rule atoi_no_digits)
  have "set (skip_sign (dropWhile isspace a)) \<subseteq> set a"
    using set_skip_sign[of "dropWhile isspace a"] set_dropWhileD[of _ isspace a] by blast
  with assms have "\<forall>c \<in> set (skip_sign (dropWhile isspace a)). \<not> isdigit c"
    by (auto simp: list_all_iff)
  then show "takeWhile isdigit (skip_sign (dropWhile isspace a)) = []"
    by (cases "skip_sign (dropWhile isspace a)") auto
qed

lemma atoi_digits_then_rest:
  assumes ne: "ds \<noteq> []" and dg: "list_all isdigit ds"
    and stop: "takeWhile isdigit rest = []"
    and lo: "0 \<le> decimal_value ds" and hi: "decimal_value ds \<le> INT_MAX"
  shows "atoi (ds @ rest) = Some (decimal_value ds)"
proof -
  from ne obtain d ds' where ds: "ds = d # ds'" by (cases ds) auto
  with dg have d: "isdigit d" by simp
  note nd = isdigit_not_skipped[OF d]
  have dw: "dropWhile isspace (ds @ rest) = ds @ rest"
    using ds nd by simp
  have sk: "skip_sign (ds @ rest) = ds @ rest"
    using ds nd by (simp add: skip_sign_def)
  have hdm: "hd (ds @ rest) \<noteq> CHR ''-''" "ds @ rest \<noteq> []"
    using ds nd by simp_all
  have "atoi_digits 0 (ds @ rest) = decimal_value ds"
    using atoi_digits_append[OF dg, of 0 rest] atoi_digits_stop[OF stop]
    by (simp add: decimal_value_def)
  with hdm lo hi show ?thesis
    by (simp add: atoi_def Let_def dw sk INT_MIN_def)
qed

section \<open>Claims\<close>

text \<open>
  Claim C1. In every state the simulation can reach, whatever the number of created threads, the
  schedule and the values of \<^verbatim>\<open>rand()\<close>, every show has
  \<open>0 \<le> available_tickets \<le> initial_tickets\<close>, and \<open>initial_tickets\<close> still is the number of
  tickets per show the simulation started with.
\<close>

theorem available_tickets_within_capacity:
  assumes "0 < total_shows" and "0 \<le> tickets_per_show"
    and "run sched (simulation_start created tickets_per_show total_shows) = Some s"
  shows "length (shows_arr s) = total_shows \<and>
    (\<forall>k < total_shows.
       0 \<le> available_tickets (shows_arr s ! k) \<and>
       available_tickets (shows_arr s ! k) \<le> initial_tickets (shows_arr s ! k) \<and>
       initial_tickets (shows_arr s ! k) = tickets_per_show)"
proof -
  have len: "length (shows_arr s) = total_shows"
    using reachable_shape(2)[OF assms(3)] .
  have tb: "tickets_bounded s"
    using reachable_invariant[OF assms] unfolding invariant_def by simp
  have "initial_tickets (shows_arr s ! k) = tickets_per_show" if "k < total_shows" for k
    using reachable_capacity[OF assms(3) that] .
  with tb len show ?thesis unfolding tickets_bounded_def by simp
qed

text \<open>
  The theorem at two states of a run with five users and a single ticket: the state in which
  three threads hold a permit and one of them is at the test, and the final state.
\<close>

theorem available_tickets_within_capacity_witness:
  "run contended_prefix (simulation_start [0..<5] 1 1) = Some contended_state \<and>
   available_tickets (shows_arr contended_state ! 0) = 1 \<and>
   initial_tickets (shows_arr contended_state ! 0) = 1 \<and>
   run (contended_prefix @ contended_section @ contended_suffix) (simulation_start [0..<5] 1 1) =
     Some contended_final \<and>
   available_tickets (shows_arr contended_final ! 0) = 0"
proof -
  have "(0::nat) < 1" and "(0::int) \<le> 1" by simp_all
  from available_tickets_within_capacity[OF this run_contended_prefix]
    available_tickets_within_capacity[OF this run_contended]
  have "0 \<le> available_tickets (shows_arr contended_state ! 0)"
    and "0 \<le> available_tickets (shows_arr contended_final ! 0)"
    by simp_all
  moreover have "available_tickets (shows_arr contended_state ! 0) = 1"
    "initial_tickets (shows_arr contended_state ! 0) = 1"
    "available_tickets (shows_arr contended_final ! 0) = 0"
    by (simp_all add: contended_state_def contended_final_def)
  ultimately show ?thesis
    using run_contended_prefix run_contended by blast
qed

text \<open>
  Claim C2. The critical section of an attempt, executed on the selected show under any
  interleaving with the other threads: from the moment the thread is at the test until it is
  about to unlock, the show changes exactly as by the sequential reading of lines 238-263. If a
  ticket was available, \<open>available_tickets\<close> is one less and the outcome is booked; if none
  was available, the show is unchanged and the outcome is sold out. The decrement of line 251
  is the only step of a thread that changes \<open>available_tickets\<close> of any show, and it is taken
  only with a ticket available and the mutex of the show owned. The section is always carried
  out: no step of a thread inside it can block, and a thread at the test, when scheduled, gets
  to the unlock in two steps with the decrement done if a ticket is available, and in one step
  with the show untouched if none is.
\<close>

theorem critical_section_decrements_once:
  assumes "0 < total_shows" and "0 \<le> tickets_per_show"
    and "run sched (simulation_start created tickets_per_show total_shows) = Some s"
  shows "(\<forall>i sched' s' oc.
            i < length (threads s) \<and> pc (threads s ! i) = At_check \<and>
            run sched' s = Some s' \<and> pc (threads s' ! i) = At_mutex_unlock oc \<longrightarrow>
            (let k = selected_show_index (threads s ! i); sh = shows_arr s ! k
             in 0 \<le> available_tickets sh \<and>
                (0 < available_tickets sh \<longrightarrow>
                   oc = Booked \<and>
                   shows_arr s' ! k = sh\<lparr>available_tickets := available_tickets sh - 1\<rparr>) \<and>
                (available_tickets sh = 0 \<longrightarrow> oc = Sold_out \<and> shows_arr s' ! k = sh))) \<and>
         (\<forall>j r s'.
            book_ticket_step j r s = Some s' \<longrightarrow>
            (let k = selected_show_index (threads s ! j); sh = shows_arr s ! k
             in (pc (threads s ! j) = At_decrement \<longrightarrow>
                   0 < available_tickets sh \<and> mutex sh = Some j \<and>
                   shows_arr s' =
                     (shows_arr s)[k := sh\<lparr>available_tickets := available_tickets sh - 1\<rparr>]) \<and>
                (pc (threads s ! j) \<noteq> At_decrement \<longrightarrow>
                   map available_tickets (shows_arr s') = map available_tickets (shows_arr s)))) \<and>
         (\<forall>i r r'.
            i < length (threads s) \<and> pc (threads s ! i) = At_check \<longrightarrow>
            (let k = selected_show_index (threads s ! i); sh = shows_arr s ! k
             in (0 < available_tickets sh \<longrightarrow>
                   (\<exists>s'. run [(i, r), (i, r')] s = Some s' \<and>
                      pc (threads s' ! i) = At_mutex_unlock Booked \<and>
                      shows_arr s' =
                        (shows_arr s)[k := sh\<lparr>available_tickets := available_tickets sh - 1\<rparr>])) \<and>
                (available_tickets sh = 0 \<longrightarrow>
                   (\<exists>s'. run [(i, r)] s = Some s' \<and>
                      pc (threads s' ! i) = At_mutex_unlock Sold_out \<and>
                      shows_arr s' = shows_arr s)))) \<and>
         (\<forall>i r.
            i < length (threads s) \<and> in_critical_section (pc (threads s ! i)) \<longrightarrow>
            (\<exists>s'. book_ticket_step i r s = Some s'))"
proof -
  have inv: "invariant s" using reachable_invariant[OF assms] .
  then have wf: "well_formed s" and mo: "mutex_owned s" and tb: "tickets_bounded s"
    and ck: "checked_ok s"
    unfolding invariant_def by simp_all
  have whole: "let k = selected_show_index (threads s ! i); sh = shows_arr s ! k
      in 0 \<le> available_tickets sh \<and>
         (0 < available_tickets sh \<longrightarrow>
            oc = Booked \<and>
            shows_arr s' ! k = sh\<lparr>available_tickets := available_tickets sh - 1\<rparr>) \<and>
         (available_tickets sh = 0 \<longrightarrow> oc = Sold_out \<and> shows_arr s' ! k = sh)"
    if i: "i < length (threads s)" and c: "pc (threads s ! i) = At_check"
      and r: "run sched' s = Some s'" and u: "pc (threads s' ! i) = At_mutex_unlock oc"
    for i sched' s' oc
  proof -
    have "selected_show_index (threads s ! i) < length (shows_arr s)"
      using wf i c unfolding well_formed_def by auto
    then have "0 \<le> available_tickets (shows_arr s ! selected_show_index (threads s ! i))"
      using tb unfolding tickets_bounded_def by blast
    with critical_section_atomic[OF inv i c r u] show ?thesis
      unfolding Let_def critical_section_def by (auto split: if_splits)
  qed
  have single: "let k = selected_show_index (threads s ! j); sh = shows_arr s ! k
      in (pc (threads s ! j) = At_decrement \<longrightarrow>
            0 < available_tickets sh \<and> mutex sh = Some j \<and>
            shows_arr s' =
              (shows_arr s)[k := sh\<lparr>available_tickets := available_tickets sh - 1\<rparr>]) \<and>
         (pc (threads s ! j) \<noteq> At_decrement \<longrightarrow>
            map available_tickets (shows_arr s') = map available_tickets (shows_arr s))"
    if st: "book_ticket_step j r s = Some s'" for j r s'
  proof (cases "pc (threads s ! j) = At_decrement")
    case False
    with only_decrement_writes[OF st] show ?thesis by (simp add: Let_def)
  next
    case True
    from st have j: "j < length (threads s)"
      by (cases rule: step_cases) simp_all
    have "0 < available_tickets (shows_arr s ! selected_show_index (threads s ! j))"
      using ck j True unfolding checked_ok_def by blast
    moreover have "mutex (shows_arr s ! selected_show_index (threads s ! j)) = Some j"
      using mo j True unfolding mutex_owned_def by simp
    moreover from st True have "shows_arr s' = (shows_arr s)[selected_show_index (threads s ! j) :=
        (shows_arr s ! selected_show_index (threads s ! j))\<lparr>available_tickets :=
          available_tickets (shows_arr s ! selected_show_index (threads s ! j)) - 1\<rparr>]"
      by (cases rule: step_cases) simp_all
    ultimately show ?thesis using True by (simp add: Let_def)
  qed
  have runs: "let k = selected_show_index (threads s ! i); sh = shows_arr s ! k
      in (0 < available_tickets sh \<longrightarrow>
            (\<exists>s'. run [(i, r), (i, r')] s = Some s' \<and>
               pc (threads s' ! i) = At_mutex_unlock Booked \<and>
               shows_arr s' =
                 (shows_arr s)[k := sh\<lparr>available_tickets := available_tickets sh - 1\<rparr>])) \<and>
         (available_tickets sh = 0 \<longrightarrow>
            (\<exists>s'. run [(i, r)] s = Some s' \<and>
               pc (threads s' ! i) = At_mutex_unlock Sold_out \<and>
               shows_arr s' = shows_arr s))"
    if i: "i < length (threads s)" and c: "pc (threads s ! i) = At_check" for i r r'
    using critical_section_runs(1)[OF i c, where r = r and r' = r']
      critical_section_runs(2)[OF i c, where r = r]
    unfolding Let_def by simp
  have free: "\<exists>s'. book_ticket_step i r s = Some s'"
    if "i < length (threads s)" and "in_critical_section (pc (threads s ! i))" for i r
    using critical_section_never_blocks[OF that] .
  from whole single runs free show ?thesis by blast
qed

text \<open>
  The theorem at the contended run: the thread of user 2 is at the test with one ticket
  available while two other threads wait for the mutex, and it leaves the show with no ticket.
\<close>

theorem critical_section_decrements_once_witness:
  "run contended_prefix (simulation_start [0..<5] 1 1) = Some contended_state \<and>
   pc (threads contended_state ! 1) = At_check \<and>
   available_tickets (shows_arr contended_state ! 0) = 1 \<and>
   run contended_section contended_state = Some contended_unlocking \<and>
   pc (threads contended_unlocking ! 1) = At_mutex_unlock Booked \<and>
   shows_arr contended_unlocking ! 0 =
     (shows_arr contended_state ! 0)\<lparr>available_tickets := 0\<rparr>"
proof -
  have pos: "(0::nat) < 1" "(0::int) \<le> 1" by simp_all
  have facts: "1 < length (threads contended_state)"
    "pc (threads contended_state ! 1) = At_check"
    "pc (threads contended_unlocking ! 1) = At_mutex_unlock Booked"
    "selected_show_index (threads contended_state ! 1) = 0"
    "available_tickets (shows_arr contended_state ! 0) = 1"
    by (simp_all add: contended_state_def contended_unlocking_def)
  from critical_section_decrements_once[OF pos run_contended_prefix]
  have "\<forall>i sched' s' oc.
      i < length (threads contended_state) \<and> pc (threads contended_state ! i) = At_check \<and>
      run sched' contended_state = Some s' \<and> pc (threads s' ! i) = At_mutex_unlock oc \<longrightarrow>
      (let k = selected_show_index (threads contended_state ! i);
           sh = shows_arr contended_state ! k
       in 0 \<le> available_tickets sh \<and>
          (0 < available_tickets sh \<longrightarrow>
             oc = Booked \<and>
             shows_arr s' ! k = sh\<lparr>available_tickets := available_tickets sh - 1\<rparr>) \<and>
          (available_tickets sh = 0 \<longrightarrow> oc = Sold_out \<and> shows_arr s' ! k = sh))"
    by (rule conjunct1)
  from this[rule_format, of 1 contended_section contended_unlocking Booked]
    facts run_contended_section
  have "shows_arr contended_unlocking ! 0 =
      (shows_arr contended_state ! 0)\<lparr>available_tickets := 0\<rparr>"
    by (simp add: Let_def)
  with facts run_contended_prefix run_contended_section show ?thesis by blast
qed

text \<open>
  Claim C3. In every reachable state the sum over all shows of
  \<open>initial_tickets - available_tickets\<close> is the number of threads whose attempt has the
  outcome booked, and the total of booked tickets that \<^verbatim>\<open>display_final_status\<close> computes is
  this number. It never exceeds the number of threads, so the \<^verbatim>\<open>int\<close> accumulator of the
  report cannot overflow.
\<close>

theorem booked_tickets_equal_booked_outcomes:
  assumes "0 < total_shows" and "0 \<le> tickets_per_show"
    and "run sched (simulation_start created tickets_per_show total_shows) = Some s"
  shows "sum_list (map (\<lambda>sh. initial_tickets sh - available_tickets sh) (shows_arr s)) =
           int (booked_outcomes (threads s)) \<and>
         total_booked_tickets s = int (booked_outcomes (threads s)) \<and>
         booked_outcomes (threads s) \<le> length created"
proof -
  have inv: "invariant s" using reachable_invariant[OF assms] .
  have "booked_outcomes (threads s) \<le> length (threads s)"
    by (simp add: booked_outcomes_def)
  with reachable_shape(3)[OF assms(3)] booked_sum_invariant[OF inv] show ?thesis
    by (simp add: total_booked_tickets_sum)
qed

text \<open>The theorem at the final state of the run with five users and one ticket.\<close>

theorem booked_tickets_equal_booked_outcomes_witness:
  "run contended_suffix contended_unlocking = Some contended_final \<and>
   total_booked_tickets contended_final = 1 \<and>
   booked_outcomes (threads contended_final) = 1"
proof -
  have "(0::nat) < 1" and "(0::int) \<le> 1" by simp_all
  from booked_tickets_equal_booked_outcomes[OF this run_contended]
  have "total_booked_tickets contended_final = int (booked_outcomes (threads contended_final))"
    by simp
  moreover have "booked_outcomes (threads contended_final) = 1"
    by (simp add: booked_outcomes_def contended_final_def)
  ultimately show ?thesis using run_contended_suffix by simp
qed

text \<open>
  Claim C4, as amended. Three shows with two tickets each and one hundred users: in every run
  that ends, the number of booked outcomes is the sum over the three shows of the smaller of 2
  and the number of threads that selected the show. It is at most 6, and it is 6 exactly when
  every show was selected by at least two threads. Every run ends: a schedule has at most 700
  steps and can always be continued until all threads have exited.
\<close>

theorem hundred_users_three_shows:
  assumes "run sched (simulation_start [0..<100] 2 3) = Some s"
  shows "(all_terminated s \<longrightarrow>
            booked_outcomes (threads s) =
              min 2 (selected_for 0 (threads s)) + min 2 (selected_for 1 (threads s)) +
              min 2 (selected_for 2 (threads s)) \<and>
            selected_for 0 (threads s) + selected_for 1 (threads s) +
              selected_for 2 (threads s) = 100 \<and>
            booked_outcomes (threads s) \<le> 6 \<and>
            (booked_outcomes (threads s) = 6 \<longleftrightarrow>
               2 \<le> selected_for 0 (threads s) \<and> 2 \<le> selected_for 1 (threads s) \<and>
               2 \<le> selected_for 2 (threads s))) \<and>
         length sched \<le> 700 \<and>
         (\<exists>sched' s'. run (sched @ sched') (simulation_start [0..<100] 2 3) = Some s' \<and>
            all_terminated s')"
proof -
  have pos: "(0::nat) < 3" "(0::int) \<le> 2" by simp_all
  have inv: "invariant s" using reachable_invariant[OF pos assms] .
  have len: "length (shows_arr s) = 3" "length (threads s) = 100"
    using reachable_shape(2,3)[OF assms] by simp_all
  have cap: "initial_tickets (shows_arr s ! 0) = 2" "initial_tickets (shows_arr s ! 1) = 2"
    "initial_tickets (shows_arr s ! 2) = 2"
    using reachable_capacity[OF assms] by simp_all
  have three: "(\<Sum>k < 3. f k) = f 0 + f 1 + f 2" for f :: "nat \<Rightarrow> 'a::comm_monoid_add"
    by (simp add: eval_nat_numeral lessThan_Suc add.commute add.left_commute)
  have ext: "length sched \<le> 700 \<and>
      (\<exists>sched' s'. run (sched @ sched') (simulation_start [0..<100] 2 3) = Some s' \<and>
         all_terminated s')"
    using reachable_extends_to_end[OF pos assms] by simp
  have fin: "booked_outcomes (threads s) =
        min 2 (selected_for 0 (threads s)) + min 2 (selected_for 1 (threads s)) +
        min 2 (selected_for 2 (threads s)) \<and>
      selected_for 0 (threads s) + selected_for 1 (threads s) + selected_for 2 (threads s) =
        100 \<and>
      booked_outcomes (threads s) \<le> 6 \<and>
      (booked_outcomes (threads s) = 6 \<longleftrightarrow>
         2 \<le> selected_for 0 (threads s) \<and> 2 \<le> selected_for 1 (threads s) \<and>
         2 \<le> selected_for 2 (threads s))"
    if t: "all_terminated s"
  proof -
    from final_booked_total[OF inv t] len cap
    have "int (booked_outcomes (threads s)) =
        min 2 (int (selected_for 0 (threads s))) + min 2 (int (selected_for 1 (threads s))) +
        min 2 (int (selected_for 2 (threads s)))"
      by (simp add: three)
    then have b: "booked_outcomes (threads s) =
        min 2 (selected_for 0 (threads s)) + min 2 (selected_for 1 (threads s)) +
        min 2 (selected_for 2 (threads s))"
      by linarith
    from final_selected_total[OF inv t] len
    have "selected_for 0 (threads s) + selected_for 1 (threads s) +
        selected_for 2 (threads s) = 100"
      by (simp add: three)
    with b show ?thesis by auto
  qed
  from fin ext show ?thesis by blast
qed

text \<open>The theorem at the run in which \<^verbatim>\<open>rand()\<close> returns 0 to every thread.\<close>

theorem hundred_users_three_shows_witness:
  "run all_first_show (simulation_start [0..<100] 2 3) = Some all_first_show_final \<and>
   all_terminated all_first_show_final \<and>
   booked_outcomes (threads all_first_show_final) =
     min 2 (selected_for 0 (threads all_first_show_final)) +
     min 2 (selected_for 1 (threads all_first_show_final)) +
     min 2 (selected_for 2 (threads all_first_show_final)) \<and>
   selected_for 0 (threads all_first_show_final) = 100"
  using hundred_users_three_shows[OF run_all_first_show]
    run_all_first_show all_first_show_final_facts(1,3)
  by blast

text \<open>
  Claim C4 as stated fails: when every thread selects the first show, the run ends with two
  booked outcomes, not six.
\<close>

theorem hundred_users_not_always_six:
  "run all_first_show (simulation_start [0..<100] 2 3) = Some all_first_show_final \<and>
   all_terminated all_first_show_final \<and>
   booked_outcomes (threads all_first_show_final) = 2 \<and>
   booked_outcomes (threads all_first_show_final) \<noteq> 6"
  using run_all_first_show all_first_show_final_facts(1,2) by simp

text \<open>
  Claim C5. The claim does not hold of the code: the loop of lines 530-537 calls
  \<^verbatim>\<open>pthread_join\<close> on every element of the array \<^verbatim>\<open>threads\<close>, also on the elements of
  the loop indices for which line 492 or line 507 skipped the thread. With two users, one
  ticket and one show, and \<^verbatim>\<open>pthread_create\<close> failing for the first user, the failure is
  reported, the second thread is created, and the first join is on the element that was never
  written, whatever the second thread does.
\<close>

theorem join_of_thread_never_created:
  "main first_create_fails [''movie_booking'', ''2'', ''1'', ''1''] (solo 7 0 0) =
     Some ([Sem_init 3, Shows_malloc 1, Mutex_init 0, Threads_malloc 2,
            Thread_create_failed 0, Thread_create 1, Thread_join 0], Undefined)"
  by code_simp

text \<open>
  Claim C6. In every reachable state at most three threads hold a permit, that is, are past
  \<^verbatim>\<open>sem_wait\<close> and have not returned from \<^verbatim>\<open>sem_post\<close>; the semaphore value and the
  number of permits held add up to 3. Every thread returns from \<^verbatim>\<open>sem_wait\<close> at most once and
  posts only after that; it holds a permit exactly when it has waited and not posted; and a
  thread that has exited, with either outcome, has waited once and posted once. When all
  threads have exited the semaphore is back at 3. The release always happens: a thread about
  to unlock, with either outcome, gets through \<^verbatim>\<open>sem_post\<close> to its exit in two steps whenever
  it is scheduled, raising the semaphore by one; and every run, which has at most seven steps
  per thread, can be continued to a state in which all threads have exited, the semaphore is 3,
  and every thread has waited exactly once and posted exactly once.
\<close>

theorem at_most_three_permits_held:
  assumes "0 < total_shows" and "0 \<le> tickets_per_show"
    and "run sched (simulation_start created tickets_per_show total_shows) = Some s"
  shows "concurrent_limit = 3 \<and> permits_held (threads s) \<le> 3 \<and>
         global_semaphore s + permits_held (threads s) = 3 \<and>
         (\<forall>i waits posts.
            i < length (threads s) \<and>
            permit_calls i sched (simulation_start created tickets_per_show total_shows) =
              (waits, posts) \<longrightarrow>
            waits \<le> 1 \<and> posts \<le> waits \<and>
            (holds_permit (pc (threads s ! i)) \<longleftrightarrow> posts < waits) \<and>
            (\<forall>oc. pc (threads s ! i) = At_exit oc \<longrightarrow> waits = 1 \<and> posts = 1)) \<and>
         (all_terminated s \<longrightarrow> global_semaphore s = 3 \<and> permits_held (threads s) = 0) \<and>
         (\<forall>i r r' oc.
            i < length (threads s) \<and> pc (threads s ! i) = At_mutex_unlock oc \<longrightarrow>
            (\<exists>s'. run [(i, r), (i, r')] s = Some s' \<and> pc (threads s' ! i) = At_exit oc \<and>
               global_semaphore s' = global_semaphore s + 1)) \<and>
         (\<forall>i r oc.
            i < length (threads s) \<and> pc (threads s ! i) = At_sem_post oc \<longrightarrow>
            (\<exists>s'. book_ticket_step i r s = Some s' \<and> pc (threads s' ! i) = At_exit oc \<and>
               global_semaphore s' = global_semaphore s + 1)) \<and>
         length sched \<le> 7 * length created \<and>
         (\<exists>sched' s'.
            run (sched @ sched') (simulation_start created tickets_per_show total_shows) =
              Some s' \<and>
            all_terminated s' \<and> global_semaphore s' = 3 \<and>
            (\<forall>i < length created.
               permit_calls i (sched @ sched')
                 (simulation_start created tickets_per_show total_shows) = (1, 1)))"
proof -
  let ?s0 = "simulation_start created tickets_per_show total_shows"
  have sem_at: "global_semaphore s2 + permits_held (threads s2) = 3"
    if "run sched2 ?s0 = Some s2" for sched2 s2
  proof -
    have "permits_conserved s2"
      using reachable_invariant[OF assms(1,2) that] unfolding invariant_def by simp
    then show ?thesis unfolding permits_conserved_def concurrent_limit_def by simp
  qed
  have counts: "waits = (if past_sem_wait (pc (threads s2 ! i)) then 1 else 0) \<and>
      posts = (if terminated (pc (threads s2 ! i)) then 1 else 0)"
    if r: "run sched2 ?s0 = Some s2" and i: "i < length (threads s2)"
      and c: "permit_calls i sched2 ?s0 = (waits, posts)"
    for sched2 s2 i waits posts
  proof -
    have i0: "i < length (threads ?s0)"
      using i reachable_shape(3)[OF r] by (simp add: simulation_start_def)
    then have "pc (threads ?s0 ! i) = At_select"
      by (simp add: simulation_start_def new_thread_def)
    with permit_calls_run[OF r i0 c] show ?thesis by simp
  qed
  have fin_at: "global_semaphore s2 = 3 \<and> permits_held (threads s2) = 0"
    if r: "run sched2 ?s0 = Some s2" and t: "all_terminated s2" for sched2 s2
  proof -
    have "\<not> holds_permit (pc th)" if "th \<in> set (threads s2)" for th
    proof -
      from t that have "terminated (pc th)"
        unfolding all_terminated_def by (simp add: list_all_iff)
      then show ?thesis by (simp add: holds_permit_iff)
    qed
    then have "permits_held (threads s2) = 0" by (rule permits_held_zero)
    with sem_at[OF r] show ?thesis by simp
  qed
  have sem: "global_semaphore s + permits_held (threads s) = 3"
    using sem_at[OF assms(3)] .
  have calls: "waits \<le> 1 \<and> posts \<le> waits \<and>
      (holds_permit (pc (threads s ! i)) \<longleftrightarrow> posts < waits) \<and>
      (\<forall>oc. pc (threads s ! i) = At_exit oc \<longrightarrow> waits = 1 \<and> posts = 1)"
    if i: "i < length (threads s)" and c: "permit_calls i sched ?s0 = (waits, posts)"
    for i waits posts
  proof -
    from counts[OF assms(3) i c]
    have w: "waits = (if past_sem_wait (pc (threads s ! i)) then 1 else 0)"
      and p: "posts = (if terminated (pc (threads s ! i)) then 1 else 0)"
      by simp_all
    show ?thesis
      unfolding w p by (cases "pc (threads s ! i)") simp_all
  qed
  have fin: "global_semaphore s = 3 \<and> permits_held (threads s) = 0" if "all_terminated s"
    using fin_at[OF assms(3) that] .
  have unlock: "\<exists>s'. run [(i, r), (i, r')] s = Some s' \<and> pc (threads s' ! i) = At_exit oc \<and>
      global_semaphore s' = global_semaphore s + 1"
    if "i < length (threads s)" and "pc (threads s ! i) = At_mutex_unlock oc" for i r r' oc
    using release_runs(1)[OF that] .
  have post: "\<exists>s'. book_ticket_step i r s = Some s' \<and> pc (threads s' ! i) = At_exit oc \<and>
      global_semaphore s' = global_semaphore s + 1"
    if "i < length (threads s)" and "pc (threads s ! i) = At_sem_post oc" for i r oc
    using release_runs(2)[OF that] .
  from reachable_extends_to_end[OF assms] obtain sched' s' where
    len: "length sched \<le> 7 * length created"
    and r': "run (sched @ sched') ?s0 = Some s'" and t': "all_terminated s'"
    by blast
  have both: "permit_calls i (sched @ sched') ?s0 = (1, 1)" if "i < length created" for i
  proof -
    have i': "i < length (threads s')"
      using that reachable_shape(3)[OF r'] by simp
    obtain waits posts where c: "permit_calls i (sched @ sched') ?s0 = (waits, posts)"
      by (cases "permit_calls i (sched @ sched') ?s0")
    from t' i' have "terminated (pc (threads s' ! i))"
      unfolding all_terminated_def by (simp add: list_all_length)
    moreover from this have "past_sem_wait (pc (threads s' ! i))"
      by (cases "pc (threads s' ! i)") simp_all
    ultimately show ?thesis using counts[OF r' i' c] c by simp
  qed
  from r' t' fin_at[OF r' t'] both
  have ext: "\<exists>sched' s'. run (sched @ sched') ?s0 = Some s' \<and> all_terminated s' \<and>
      global_semaphore s' = 3 \<and>
      (\<forall>i < length created. permit_calls i (sched @ sched') ?s0 = (1, 1))"
    by blast
  have cl: "concurrent_limit = 3" by (simp add: concurrent_limit_def)
  have le: "permits_held (threads s) \<le> 3" using sem by simp
  from cl le sem calls fin unlock post len ext show ?thesis by blast
qed

text \<open>
  The theorem at the contended state: three of five threads hold a permit, the semaphore is 0,
  and the thread of user 2 has waited once and not posted.
\<close>

theorem at_most_three_permits_held_witness:
  "run contended_prefix (simulation_start [0..<5] 1 1) = Some contended_state \<and>
   permits_held (threads contended_state) = 3 \<and> global_semaphore contended_state = 0 \<and>
   permit_calls 1 contended_prefix (simulation_start [0..<5] 1 1) = (1, 0) \<and>
   holds_permit (pc (threads contended_state ! 1)) \<and>
   run (contended_prefix @ contended_section @ contended_suffix) (simulation_start [0..<5] 1 1) =
     Some contended_final \<and>
   all_terminated contended_final \<and> global_semaphore contended_final = 3 \<and>
   pc (threads contended_final ! 0) = At_exit Sold_out \<and>
   permit_calls 0 (contended_prefix @ contended_section @ contended_suffix)
     (simulation_start [0..<5] 1 1) = (1, 1) \<and>
   pc (threads contended_final ! 1) = At_exit Booked \<and>
   permit_calls 1 (contended_prefix @ contended_section @ contended_suffix)
     (simulation_start [0..<5] 1 1) = (1, 1)"
proof -
  have pos: "(0::nat) < 1" "(0::int) \<le> 1" by simp_all
  have calls: "permit_calls 1 contended_prefix (simulation_start [0..<5] 1 1) = (1, 0)"
    by code_simp
  have facts: "1 < length (threads contended_state)" "global_semaphore contended_state = 0"
    by (simp_all add: contended_state_def)
  from at_most_three_permits_held[OF pos run_contended_prefix]
  have "global_semaphore contended_state + permits_held (threads contended_state) = 3"
    and "\<forall>i waits posts.
      i < length (threads contended_state) \<and>
      permit_calls i contended_prefix (simulation_start [0..<5] 1 1) = (waits, posts) \<longrightarrow>
      waits \<le> 1 \<and> posts \<le> waits \<and>
      (holds_permit (pc (threads contended_state ! i)) \<longleftrightarrow> posts < waits) \<and>
      (\<forall>oc. pc (threads contended_state ! i) = At_exit oc \<longrightarrow> waits = 1 \<and> posts = 1)"
    by blast+
  from this(1) this(2)[rule_format, of 1 1 0] facts calls
  have "permits_held (threads contended_state) = 3"
    and "holds_permit (pc (threads contended_state ! 1))"
    by simp_all
  note mid = this
  have t: "all_terminated contended_final"
    by (simp add: all_terminated_def contended_final_def)
  have ends: "pc (threads contended_final ! 0) = At_exit Sold_out"
    "pc (threads contended_final ! 1) = At_exit Booked"
    "0 < length (threads contended_final)" "1 < length (threads contended_final)"
    by (simp_all add: contended_final_def)
  obtain w0 p0 where c0: "permit_calls 0 (contended_prefix @ contended_section @ contended_suffix)
      (simulation_start [0..<5] 1 1) = (w0, p0)"
    by (cases "permit_calls 0 (contended_prefix @ contended_section @ contended_suffix)
      (simulation_start [0..<5] 1 1)")
  obtain w1 p1 where c1: "permit_calls 1 (contended_prefix @ contended_section @ contended_suffix)
      (simulation_start [0..<5] 1 1) = (w1, p1)"
    by (cases "permit_calls 1 (contended_prefix @ contended_section @ contended_suffix)
      (simulation_start [0..<5] 1 1)")
  from at_most_three_permits_held[OF pos run_contended]
  have f: "all_terminated contended_final \<longrightarrow> global_semaphore contended_final = 3 \<and>
      permits_held (threads contended_final) = 0"
    and g: "\<forall>i waits posts.
      i < length (threads contended_final) \<and>
      permit_calls i (contended_prefix @ contended_section @ contended_suffix)
        (simulation_start [0..<5] 1 1) = (waits, posts) \<longrightarrow>
      waits \<le> 1 \<and> posts \<le> waits \<and>
      (holds_permit (pc (threads contended_final ! i)) \<longleftrightarrow> posts < waits) \<and>
      (\<forall>oc. pc (threads contended_final ! i) = At_exit oc \<longrightarrow> waits = 1 \<and> posts = 1)"
    by blast+
  from g[rule_format, of 0 w0 p0] g[rule_format, of 1 w1 p1] c0 c1 ends
  have "w0 = 1 \<and> p0 = 1 \<and> w1 = 1 \<and> p1 = 1" by simp
  with c0 c1 f t ends mid facts calls run_contended_prefix run_contended show ?thesis
    by simp
qed

text \<open>
  Claim C7. One show with one ticket and five users: every run that ends has exactly one booked
  outcome and four sold-out outcomes, and the show ends with no ticket available. Every run
  ends: a schedule has at most 35 steps and can always be continued until all threads have
  exited.
\<close>

theorem one_ticket_five_users:
  assumes "run sched (simulation_start [0..<5] 1 1) = Some s"
  shows "(all_terminated s \<longrightarrow>
            booked_outcomes (threads s) = 1 \<and> sold_out_outcomes (threads s) = 4 \<and>
            length (shows_arr s) = 1 \<and> available_tickets (shows_arr s ! 0) = 0) \<and>
         length sched \<le> 35 \<and>
         (\<exists>sched' s'. run (sched @ sched') (simulation_start [0..<5] 1 1) = Some s' \<and>
            all_terminated s')"
proof -
  have pos: "(0::nat) < 1" "(0::int) \<le> 1" by simp_all
  have inv: "invariant s" using reachable_invariant[OF pos assms] .
  have len: "length (shows_arr s) = 1" "length (threads s) = 5"
    using reachable_shape(2,3)[OF assms] by simp_all
  have cap: "initial_tickets (shows_arr s ! 0) = 1"
    using reachable_capacity[OF assms, of 0] by simp
  have ext: "length sched \<le> 35 \<and>
      (\<exists>sched' s'. run (sched @ sched') (simulation_start [0..<5] 1 1) = Some s' \<and>
         all_terminated s')"
    using reachable_extends_to_end[OF pos assms] by simp
  have fin: "booked_outcomes (threads s) = 1 \<and> sold_out_outcomes (threads s) = 4 \<and>
      length (shows_arr s) = 1 \<and> available_tickets (shows_arr s ! 0) = 0"
    if t: "all_terminated s"
  proof -
    have "selected_for 0 (threads s) = 5"
      using final_selected_total[OF inv t] len by simp
    with final_booked_per_show[OF inv t, of 0] len cap
    have av: "available_tickets (shows_arr s ! 0) = 0" by simp
    from final_booked_total[OF inv t] len cap \<open>selected_for 0 (threads s) = 5\<close>
    have b: "booked_outcomes (threads s) = 1" by simp
    from outcomes_total[of "threads s"] t len b
    have "sold_out_outcomes (threads s) = 4"
      unfolding all_terminated_def by simp
    with av b len show ?thesis by simp
  qed
  from fin ext show ?thesis by blast
qed

text \<open>The theorem at the contended run of five users.\<close>

theorem one_ticket_five_users_witness:
  "run (contended_prefix @ contended_section @ contended_suffix) (simulation_start [0..<5] 1 1) =
     Some contended_final \<and>
   all_terminated contended_final \<and>
   booked_outcomes (threads contended_final) = 1 \<and>
   sold_out_outcomes (threads contended_final) = 4 \<and>
   available_tickets (shows_arr contended_final ! 0) = 0"
proof -
  have t: "all_terminated contended_final"
    by (simp add: all_terminated_def contended_final_def)
  from one_ticket_five_users[OF run_contended] t
  have "booked_outcomes (threads contended_final) = 1 \<and>
      sold_out_outcomes (threads contended_final) = 4 \<and>
      available_tickets (shows_arr contended_final ! 0) = 0"
    by blast
  with t run_contended show ?thesis by blast
qed

text \<open>
  Claim C8. If \<^verbatim>\<open>malloc\<close> of the show array fails, \<^verbatim>\<open>initialize_shows\<close> exits at once. If
  \<^verbatim>\<open>pthread_mutex_init\<close> fails first for show \<open>i\<close>, the mutexes of the shows \<open>0\<close> to
  \<open>i - 1\<close>, which were initialised, are destroyed in this order, then the array is freed, and
  then the process exits. In both cases \<^verbatim>\<open>main\<close> ends with exit code 1 under every schedule,
  and no thread is created.
\<close>

theorem initialize_shows_failure_is_fatal:
  "(\<not> shows_malloc_ok e \<longrightarrow> initialize_shows e n t = ([Shows_malloc_failed], None)) \<and>
   (shows_malloc_ok e \<and> i < n \<and> list_all (mutex_init_ok e) [0..<i] \<and> \<not> mutex_init_ok e i \<longrightarrow>
      initialize_shows e n t =
        (Shows_malloc n # map Mutex_init [0..<i] @ Mutex_init_failed i #
           map Mutex_destroy [0..<i] @ [Shows_free], None)) \<and>
   (parse_arguments argv = Inr (total_users, t, total_shows) \<and> sem_init_ok e \<and>
    initialize_shows e (nat total_shows) t = (ev, None) \<longrightarrow>
      main e argv sched = Some (Sem_init concurrent_limit # ev, Exit 1) \<and>
      (\<forall>j. Thread_create j \<notin> set ev))"
proof -
  have 1: "initialize_shows e n t = ([Shows_malloc_failed], None)" if "\<not> shows_malloc_ok e"
    using that by (simp add: initialize_shows_def)
  have 3: "main e argv sched = Some (Sem_init concurrent_limit # ev, Exit 1) \<and>
      (\<forall>j. Thread_create j \<notin> set ev)"
    if "parse_arguments argv = Inr (total_users, t, total_shows)" "sem_init_ok e"
      "initialize_shows e (nat total_shows) t = (ev, None)"
    using that initialize_shows_no_thread[OF that(3)]
    by (simp add: main_def EXIT_FAILURE_def)
  from 1 3 initialize_shows_mutex_fails[of e i n t] show ?thesis by blast
qed

text \<open>The theorem for three shows where the third mutex cannot be initialised.\<close>

theorem initialize_shows_failure_is_fatal_witness:
  "initialize_shows third_mutex_fails 3 5 =
     ([Shows_malloc 3, Mutex_init 0, Mutex_init 1, Mutex_init_failed 2,
       Mutex_destroy 0, Mutex_destroy 1, Shows_free], None) \<and>
   main third_mutex_fails [''movie_booking'', ''4'', ''5'', ''3''] [] =
     Some ([Sem_init 3, Shows_malloc 3, Mutex_init 0, Mutex_init 1, Mutex_init_failed 2,
            Mutex_destroy 0, Mutex_destroy 1, Shows_free], Exit 1)"
proof -
  have env: "shows_malloc_ok third_mutex_fails" "sem_init_ok third_mutex_fails"
    "list_all (mutex_init_ok third_mutex_fails) [0..<2]" "\<not> mutex_init_ok third_mutex_fails 2"
    by (simp_all add: third_mutex_fails_def all_ok_def eval_nat_numeral)
  have two: "[0..<2] = [0, 1]" by (simp add: eval_nat_numeral)
  have args: "parse_arguments [''movie_booking'', ''4'', ''5'', ''3''] = Inr (4, 5, 3)"
    by code_simp
  from initialize_shows_failure_is_fatal[of third_mutex_fails 3 5 2] env
  have i: "initialize_shows third_mutex_fails 3 5 =
     ([Shows_malloc 3, Mutex_init 0, Mutex_init 1, Mutex_init_failed 2,
       Mutex_destroy 0, Mutex_destroy 1, Shows_free], None)"
    by (simp add: two)
  from initialize_shows_failure_is_fatal[of third_mutex_fails 3 5 2
      "[''movie_booking'', ''4'', ''5'', ''3'']" 4 3
      "[Shows_malloc 3, Mutex_init 0, Mutex_init 1, Mutex_init_failed 2,
        Mutex_destroy 0, Mutex_destroy 1, Shows_free]" "[]"] env args i
  have "main third_mutex_fails [''movie_booking'', ''4'', ''5'', ''3''] [] =
     Some ([Sem_init 3, Shows_malloc 3, Mutex_init 0, Mutex_init 1, Mutex_init_failed 2,
            Mutex_destroy 0, Mutex_destroy 1, Shows_free], Exit 1)"
    by (simp add: concurrent_limit_def)
  with i show ?thesis by blast
qed

text \<open>
  Claim C9. The exit code is 1 when \<^verbatim>\<open>argc\<close> is not 4, when one of the three converted
  values is not positive, and when \<^verbatim>\<open>sem_init\<close>, the allocation of the show array, the
  initialisation of a mutex or the allocation of the thread ids fails. Otherwise no exit code
  but 0 is possible, and \<^verbatim>\<open>main\<close> exits with it only under a schedule that has run the
  threads of all users to their end, after it has joined every one of them. When every thread
  was created and the schedule runs all threads to their end, \<^verbatim>\<open>main\<close> joins the threads of
  all users and returns 0, and such a schedule exists.
\<close>

theorem main_exit_codes:
  "(length argv \<noteq> 4 \<longrightarrow> exit_status (main e argv sched) = Some (Exit 1)) \<and>
   (length argv = 4 \<and> atoi (argv ! 1) = Some u \<and> atoi (argv ! 2) = Some t \<and>
    atoi (argv ! 3) = Some n \<longrightarrow>
      (u \<le> 0 \<or> t \<le> 0 \<or> n \<le> 0 \<longrightarrow> exit_status (main e argv sched) = Some (Exit 1)) \<and>
      (0 < u \<and> 0 < t \<and> 0 < n \<and> resource_init_fails e (nat n) \<longrightarrow>
         exit_status (main e argv sched) = Some (Exit 1)) \<and>
      (0 < u \<and> 0 < t \<and> 0 < n \<and> \<not> resource_init_fails e (nat n) \<longrightarrow>
         (\<forall>ev c. main e argv sched = Some (ev, Exit c) \<longrightarrow>
            c = 0 \<and> all_spawned e (nat u) \<and>
            (\<exists>s. run sched (simulation_start [0..<nat u] t (nat n)) = Some s \<and>
               all_terminated s) \<and>
            (\<exists>before after. ev = before @ map Thread_join [0..<nat u] @ after)) \<and>
         (all_spawned e (nat u) \<longrightarrow>
            (\<forall>s. run sched (simulation_start [0..<nat u] t (nat n)) = Some s \<and>
                 all_terminated s \<longrightarrow>
                 (\<exists>before after.
                    main e argv sched =
                      Some (before @ map Thread_join [0..<nat u] @ after, Exit 0))) \<and>
            (\<exists>sched'. exit_status (main e argv sched') = Some (Exit 0)))))"
proof -
  have argc: "exit_status (main e argv sched) = Some (Exit 1)" if "length argv \<noteq> 4"
    using main_wrong_argc[OF that] by (simp add: exit_status_def)
  have vals: "(u \<le> 0 \<or> t \<le> 0 \<or> n \<le> 0 \<longrightarrow> exit_status (main e argv sched) = Some (Exit 1)) \<and>
      (0 < u \<and> 0 < t \<and> 0 < n \<and> resource_init_fails e (nat n) \<longrightarrow>
         exit_status (main e argv sched) = Some (Exit 1)) \<and>
      (0 < u \<and> 0 < t \<and> 0 < n \<and> \<not> resource_init_fails e (nat n) \<longrightarrow>
         (\<forall>ev c. main e argv sched = Some (ev, Exit c) \<longrightarrow>
            c = 0 \<and> all_spawned e (nat u) \<and>
            (\<exists>s. run sched (simulation_start [0..<nat u] t (nat n)) = Some s \<and>
               all_terminated s) \<and>
            (\<exists>before after. ev = before @ map Thread_join [0..<nat u] @ after)) \<and>
         (all_spawned e (nat u) \<longrightarrow>
            (\<forall>s. run sched (simulation_start [0..<nat u] t (nat n)) = Some s \<and>
                 all_terminated s \<longrightarrow>
                 (\<exists>before after.
                    main e argv sched =
                      Some (before @ map Thread_join [0..<nat u] @ after, Exit 0))) \<and>
            (\<exists>sched'. exit_status (main e argv sched') = Some (Exit 0))))"
    if a: "length argv = 4" "atoi (argv ! 1) = Some u" "atoi (argv ! 2) = Some t"
      "atoi (argv ! 3) = Some n"
  proof -
    note pa = parse_arguments_values[OF a]
    have nonpos: "exit_status (main e argv sched) = Some (Exit 1)"
      if "u \<le> 0 \<or> t \<le> 0 \<or> n \<le> 0"
      using pa that by (simp add: main_def exit_status_def)
    have res: "exit_status (main e argv sched) = Some (Exit 1)"
      if "0 < u \<and> 0 < t \<and> 0 < n \<and> resource_init_fails e (nat n)"
    proof -
      from pa that have "parse_arguments argv = Inr (u, t, n)" by simp
      from main_resource_failure[OF this, of e sched] that show ?thesis
        by (auto simp: exit_status_def)
    qed
    have ok: "(\<forall>ev c. main e argv sched = Some (ev, Exit c) \<longrightarrow>
            c = 0 \<and> all_spawned e (nat u) \<and>
            (\<exists>s. run sched (simulation_start [0..<nat u] t (nat n)) = Some s \<and>
               all_terminated s) \<and>
            (\<exists>before after. ev = before @ map Thread_join [0..<nat u] @ after)) \<and>
        (all_spawned e (nat u) \<longrightarrow>
           (\<forall>s. run sched (simulation_start [0..<nat u] t (nat n)) = Some s \<and>
                all_terminated s \<longrightarrow>
                (\<exists>before after.
                   main e argv sched =
                     Some (before @ map Thread_join [0..<nat u] @ after, Exit 0))) \<and>
           (\<exists>sched'. exit_status (main e argv sched') = Some (Exit 0)))"
      if h: "0 < u \<and> 0 < t \<and> 0 < n \<and> \<not> resource_init_fails e (nat n)"
    proof -
      from pa h have p: "parse_arguments argv = Inr (u, t, n)" by simp
      from h have nf: "\<not> resource_init_fails e (nat n)" by simp
      note m = main_after_setup[OF p nf]
      have zero: "c = 0 \<and> all_spawned e (nat u) \<and>
          (\<exists>s. run sched (simulation_start [0..<nat u] t (nat n)) = Some s \<and>
             all_terminated s) \<and>
          (\<exists>before after. ev = before @ map Thread_join [0..<nat u] @ after)"
        if "main e argv sched = Some (ev, Exit c)" for ev c
        using main_exit_only_after[OF p nf that] .
      have exits: "\<exists>before after.
          main e argv sched' = Some (before @ map Thread_join [0..<nat u] @ after, Exit 0)"
        if sp: "all_spawned e (nat u)"
          and r: "run sched' (simulation_start [0..<nat u] t (nat n)) = Some s"
          and f: "all_terminated s"
        for sched' s
      proof -
        from run_simulation_all_spawned[OF sp r f] obtain a b c where
          "run_simulation e (nat u) (nat n) (map (new_show t) [0..<nat n]) sched' =
             Some (map Thread_create [0..<nat u] @ map Thread_join [0..<nat u] @
               [Final_report a b c, Threads_free] @ cleanup_resources (nat n), Exit 0)"
          by blast
        then have "main e argv sched' =
            Some ((Sem_init concurrent_limit # (Shows_malloc (nat n) #
                    map Mutex_init [0..<nat n]) @ [Threads_malloc (nat u)] @
                    map Thread_create [0..<nat u]) @
                  map Thread_join [0..<nat u] @
                  ([Final_report a b c, Threads_free] @ cleanup_resources (nat n)), Exit 0)"
          unfolding main_after_setup[OF p nf] by simp
        then show ?thesis by blast
      qed
      have ex: "\<exists>sched'. exit_status (main e argv sched') = Some (Exit 0)"
        if sp: "all_spawned e (nat u)"
      proof -
        have pos: "0 < nat n" "0 \<le> t" using h by simp_all
        have "run [] (simulation_start [0..<nat u] t (nat n)) =
            Some (simulation_start [0..<nat u] t (nat n))"
          by simp
        from reachable_extends_to_end[OF pos this] obtain sched' s'
          where "run sched' (simulation_start [0..<nat u] t (nat n)) = Some s'"
            "all_terminated s'"
          by auto
        from exits[OF sp this] show ?thesis by (auto simp: exit_status_def)
      qed
      from zero exits ex show ?thesis by blast
    qed
    from nonpos res ok show ?thesis by blast
  qed
  from argc vals show ?thesis by blast
qed

text \<open>
  The theorem at four command lines: too few arguments, a zero, a mutex that cannot be
  initialised, and the contended run of five users. Under the prefix of that run, which leaves
  all five threads running, \<^verbatim>\<open>main\<close> does not return.
\<close>

theorem main_exit_codes_witness:
  "exit_status (main all_ok [''movie_booking'', ''5'', ''1''] []) = Some (Exit 1) \<and>
   exit_status (main all_ok [''movie_booking'', ''5'', ''0'', ''1''] []) = Some (Exit 1) \<and>
   exit_status (main third_mutex_fails [''movie_booking'', ''5'', ''1'', ''3''] []) =
     Some (Exit 1) \<and>
   exit_status (main all_ok [''movie_booking'', ''5'', ''1'', ''1'']
     (contended_prefix @ contended_section @ contended_suffix)) = Some (Exit 0) \<and>
   main all_ok [''movie_booking'', ''5'', ''1'', ''1''] contended_prefix = None"
proof -
  have at: "atoi ''5'' = Some 5" "atoi ''1'' = Some 1" "atoi ''0'' = Some 0" "atoi ''3'' = Some 3"
    by code_simp+
  have w1: "exit_status (main all_ok [''movie_booking'', ''5'', ''1''] []) = Some (Exit 1)"
    using main_exit_codes[of "[''movie_booking'', ''5'', ''1'']" all_ok "[]"] by simp
  have w2: "exit_status (main all_ok [''movie_booking'', ''5'', ''0'', ''1''] []) = Some (Exit 1)"
    using main_exit_codes[of "[''movie_booking'', ''5'', ''0'', ''1'']" all_ok "[]" 5 0 1] at
    by simp
  have f3: "resource_init_fails third_mutex_fails (nat 3)"
    by (simp add: resource_init_fails_def third_mutex_fails_def all_ok_def eval_nat_numeral)
  have w3: "exit_status (main third_mutex_fails [''movie_booking'', ''5'', ''1'', ''3''] []) =
      Some (Exit 1)"
    using main_exit_codes[of "[''movie_booking'', ''5'', ''1'', ''3'']" third_mutex_fails "[]"
        5 1 3] at f3
    by simp
  have f4: "\<not> resource_init_fails all_ok (nat 1)" "all_spawned all_ok (nat 5)"
    by (simp_all add: resource_init_fails_def all_spawned_def all_ok_def list_all_iff)
  have t: "all_terminated contended_final"
    by (simp add: all_terminated_def contended_final_def)
  have r: "run (contended_prefix @ contended_section @ contended_suffix)
      (simulation_start [0..<nat 5] 1 (nat 1)) = Some contended_final"
    using run_contended by simp
  from main_exit_codes[of "[''movie_booking'', ''5'', ''1'', ''1'']" all_ok
      "contended_prefix @ contended_section @ contended_suffix" 5 1 1] at f4
  have "\<forall>s. run (contended_prefix @ contended_section @ contended_suffix)
        (simulation_start [0..<nat 5] 1 (nat 1)) = Some s \<and> all_terminated s \<longrightarrow>
      (\<exists>before after.
         main all_ok [''movie_booking'', ''5'', ''1'', ''1'']
           (contended_prefix @ contended_section @ contended_suffix) =
         Some (before @ map Thread_join [0..<nat 5] @ after, Exit 0))"
    by simp
  with r t have w4: "exit_status (main all_ok [''movie_booking'', ''5'', ''1'', ''1'']
     (contended_prefix @ contended_section @ contended_suffix)) = Some (Exit 0)"
    by (auto simp: exit_status_def)
  have w5: "main all_ok [''movie_booking'', ''5'', ''1'', ''1''] contended_prefix = None"
    by code_simp
  from w1 w2 w3 w4 w5 show ?thesis by blast
qed

text \<open>
  Claim C10, as amended. The arguments are validated by the value \<^verbatim>\<open>atoi\<close> returns, as long
  as all three conversions are defined, that is, the values are within the range of
  \<^verbatim>\<open>int\<close>: when one of the three values is at most 0, \<^verbatim>\<open>main\<close> exits with code 1, and
  otherwise the values are accepted as they are. A string in which no digit follows the white
  space and the sign that \<^verbatim>\<open>atoi\<close> skips, in particular a string without any digit, converts
  to 0. A string of digits that denotes a positive number not above \<^verbatim>\<open>INT_MAX\<close>, followed by
  anything that does not start with a digit, converts to that number.
\<close>

theorem validation_is_by_atoi_value:
  "(length argv = 4 \<and> atoi (argv ! 1) = Some u \<and> atoi (argv ! 2) = Some t \<and>
    atoi (argv ! 3) = Some n \<longrightarrow>
      (u \<le> 0 \<or> t \<le> 0 \<or> n \<le> 0 \<longrightarrow>
         parse_arguments argv = Inl (Exit 1) \<and> main e argv sched = Some ([], Exit 1)) \<and>
      (0 < u \<and> 0 < t \<and> 0 < n \<longrightarrow> parse_arguments argv = Inr (u, t, n))) \<and>
   (takeWhile isdigit (skip_sign (dropWhile isspace a)) = [] \<longrightarrow> atoi a = Some 0) \<and>
   (list_all (\<lambda>c. \<not> isdigit c) a \<longrightarrow> atoi a = Some 0) \<and>
   (ds \<noteq> [] \<and> list_all isdigit ds \<and> takeWhile isdigit rest = [] \<and>
    0 < decimal_value ds \<and> decimal_value ds \<le> INT_MAX \<longrightarrow>
      atoi (ds @ rest) = Some (decimal_value ds))"
proof -
  have 1: "parse_arguments argv = Inl (Exit 1) \<and> main e argv sched = Some ([], Exit 1)"
    if "length argv = 4" "atoi (argv ! 1) = Some u" "atoi (argv ! 2) = Some t"
      "atoi (argv ! 3) = Some n" "u \<le> 0 \<or> t \<le> 0 \<or> n \<le> 0"
    using parse_arguments_values[OF that(1-4)] that(5) by (simp add: main_def)
  have 2: "parse_arguments argv = Inr (u, t, n)"
    if "length argv = 4" "atoi (argv ! 1) = Some u" "atoi (argv ! 2) = Some t"
      "atoi (argv ! 3) = Some n" "0 < u \<and> 0 < t \<and> 0 < n"
    using parse_arguments_values[OF that(1-4)] that(5) by simp
  have 3: "atoi (ds @ rest) = Some (decimal_value ds)"
    if "ds \<noteq> []" "list_all isdigit ds" "takeWhile isdigit rest = []"
      "0 < decimal_value ds" "decimal_value ds \<le> INT_MAX"
    using atoi_digits_then_rest[OF that(1-3) _ that(5)] that(4) by simp
  from 1 2 3 atoi_no_digits[of a] atoi_non_numeric[of a] show ?thesis by blast
qed

text \<open>The theorem at \<^verbatim>\<open>5x\<close>, \<^verbatim>\<open>12 tickets\<close> and \<^verbatim>\<open>abc\<close>.\<close>

theorem validation_is_by_atoi_value_witness:
  "atoi ''5x'' = Some 5 \<and> atoi ''12 tickets'' = Some 12 \<and> atoi ''abc'' = Some 0 \<and>
   parse_arguments [''movie_booking'', ''5x'', ''12 tickets'', ''3''] = Inr (5, 12, 3) \<and>
   main all_ok [''movie_booking'', ''abc'', ''12'', ''3''] [] = Some ([], Exit 1)"
proof -
  have a1: "atoi ''5x'' = Some 5"
    using validation_is_by_atoi_value[of "[]" 0 0 0 all_ok "[]" "[]" "''5''" "''x''"]
    by (simp add: isdigit_def decimal_value_def digit_value_def INT_MAX_def)
  have a2: "atoi ''12 tickets'' = Some 12"
    using validation_is_by_atoi_value[of "[]" 0 0 0 all_ok "[]" "[]" "''12''" "'' tickets''"]
    by (simp add: isdigit_def decimal_value_def digit_value_def INT_MAX_def)
  have a3: "atoi ''abc'' = Some 0"
    using validation_is_by_atoi_value[of "[]" 0 0 0 all_ok "[]" "''abc''" "[]" "[]"]
    by (simp add: isdigit_def)
  have a4: "atoi ''3'' = Some 3" "atoi ''12'' = Some 12"
    by (simp_all add: atoi_def isspace_def isdigit_def skip_sign_def digit_value_def
        INT_MIN_def INT_MAX_def)
  have p: "parse_arguments [''movie_booking'', ''5x'', ''12 tickets'', ''3''] = Inr (5, 12, 3)"
    using validation_is_by_atoi_value[of "[''movie_booking'', ''5x'', ''12 tickets'', ''3'']"
        5 12 3 all_ok "[]" "[]" "[]" "[]"] a1 a2 a4
    by simp
  have m: "main all_ok [''movie_booking'', ''abc'', ''12'', ''3''] [] = Some ([], Exit 1)"
    using validation_is_by_atoi_value[of "[''movie_booking'', ''abc'', ''12'', ''3'']"
        0 12 3 all_ok "[]" "[]" "[]" "[]"] a3 a4
    by simp
  from a1 a2 a3 p m show ?thesis by blast
qed

text \<open>
  Claim C10 as stated fails: \<^verbatim>\<open>2147483648x\<close> is a positive number followed by a character
  that is not a digit, but the number is above \<^verbatim>\<open>INT_MAX\<close>. The conversion is undefined, and
  \<^verbatim>\<open>main\<close> does not go on with 2147483648 users.
\<close>

theorem number_above_int_max_not_accepted:
  "list_all isdigit ''2147483648'' \<and> decimal_value ''2147483648'' = 2147483648 \<and>
   \<not> isdigit CHR ''x'' \<and>
   atoi ''2147483648x'' = None \<and>
   parse_arguments [''movie_booking'', ''2147483648x'', ''1'', ''1''] = Inl Undefined \<and>
   parse_arguments [''movie_booking'', ''2147483648x'', ''1'', ''1''] \<noteq> Inr (2147483648, 1, 1) \<and>
   main all_ok [''movie_booking'', ''2147483648x'', ''1'', ''1''] [] = Some ([], Undefined)"
  by code_simp


end
